theory Spec2Isabelle
  imports Main "HOL-Library.Log_Nat"
begin

section \<open>The page: the part of the DOM that JS.js reads and writes\<close>

text \<open>
  The script is a set of DOM event handlers. The browser's document is modelled as a
  store: the elements of the page in document order, an element's handle being its
  index. Each element carries the properties the script reads or writes: its tag name
  (lower case), its attributes (\<open>getAttribute\<close>), its class list, its parent (for the
  descendant selectors), its text content, and the layout numbers
  \<open>getBoundingClientRect().top\<close>, \<open>offsetTop\<close> and \<open>clientHeight\<close>. The window carries
  \<open>innerHeight\<close> and \<open>pageYOffset\<close>. Layout numbers are only compared and
  subtracted from integers below \<open>2^53\<close>, so they are kept as exact rationals.
  \<open>textContent\<close> is the text of the element itself: the script reads and writes it
  only on the \<open>.stat-number\<close> elements, which hold a number and no other element.
\<close>

type_synonym node = nat

record element =
  tagName :: string
  attributes :: "string \<rightharpoonup> string"
  classList :: "string set"
  parentNode :: "node option"
  textContent :: string
  rect_top :: rat
  offsetTop :: int
  clientHeight :: int

record page =
  elements :: "element list"
  innerHeight :: int
  pageYOffset :: rat

definition getAttribute :: "element \<Rightarrow> string \<Rightarrow> string option" where
  "getAttribute e a = attributes e a"

definition setAttribute :: "string \<Rightarrow> string \<Rightarrow> element \<Rightarrow> element" where
  "setAttribute a v e = e\<lparr>attributes := (attributes e)(a \<mapsto> v)\<rparr>"

definition classList_add :: "string \<Rightarrow> element \<Rightarrow> element" where
  "classList_add c e = e\<lparr>classList := insert c (classList e)\<rparr>"

definition classList_remove :: "string \<Rightarrow> element \<Rightarrow> element" where
  "classList_remove c e = e\<lparr>classList := classList e - {c}\<rparr>"

definition elem :: "page \<Rightarrow> node \<Rightarrow> element" where
  "elem p i = elements p ! i"

text \<open>A write through a handle: the element at that index is replaced, nothing else.\<close>

definition modify :: "node \<Rightarrow> (element \<Rightarrow> element) \<Rightarrow> page \<Rightarrow> page" where
  "modify i f p =
     (if i < length (elements p) then p\<lparr>elements := (elements p)[i := f (elements p ! i)]\<rparr>
      else p)"

text \<open>
  \<open>querySelectorAll\<close> returns the matching elements in document order, each once.
  The selectors the script uses are fixed strings; each is a predicate on a handle.
\<close>

definition querySelectorAll :: "page \<Rightarrow> (page \<Rightarrow> node \<Rightarrow> bool) \<Rightarrow> node list" where
  "querySelectorAll p sel = filter (sel p) [0..<length (elements p)]"

definition querySelector :: "page \<Rightarrow> (page \<Rightarrow> node \<Rightarrow> bool) \<Rightarrow> node option" where
  "querySelector p sel = (case querySelectorAll p sel of [] \<Rightarrow> None | i # _ \<Rightarrow> Some i)"

fun ancestors_fuel :: "nat \<Rightarrow> page \<Rightarrow> node \<Rightarrow> node list" where
  "ancestors_fuel 0 p i = []"
| "ancestors_fuel (Suc n) p i =
     (case parentNode (elem p i) of
        None \<Rightarrow> []
      | Some j \<Rightarrow> if j < length (elements p) then j # ancestors_fuel n p j else [])"

definition ancestors :: "page \<Rightarrow> node \<Rightarrow> node list" where
  "ancestors p i = ancestors_fuel (length (elements p)) p i"

text \<open>\<open>.c\<close>\<close>

definition sel_class :: "string \<Rightarrow> page \<Rightarrow> node \<Rightarrow> bool" where
  "sel_class c p i = (c \<in> classList (elem p i))"

text \<open>\<open>.reveal\<close>\<close>

definition sel_reveal :: "page \<Rightarrow> node \<Rightarrow> bool" where
  "sel_reveal = sel_class ''reveal''"

text \<open>\<open>section[id]\<close>\<close>

definition sel_section_id :: "page \<Rightarrow> node \<Rightarrow> bool" where
  "sel_section_id p i =
     (tagName (elem p i) = ''section'' \<and> getAttribute (elem p i) ''id'' \<noteq> None)"

text \<open>\<open>.nav-links a\<close>: an anchor below an element of class \<open>nav-links\<close>.\<close>

definition sel_nav_link :: "page \<Rightarrow> node \<Rightarrow> bool" where
  "sel_nav_link p i =
     (tagName (elem p i) = ''a'' \<and>
      list_ex (\<lambda>j. ''nav-links'' \<in> classList (elem p j)) (ancestors p i))"

section \<open>Scroll reveal\<close>

text \<open>
  \<^verbatim>\<open>
  function revealOnScroll() {
      const revealElements = document.querySelectorAll('.reveal');
      const windowHeight = window.innerHeight;
      const revealPoint = 100;
      revealElements.forEach(element => {
          const elementTop = element.getBoundingClientRect().top;
          if (elementTop < windowHeight - revealPoint) {
              element.classList.add('active');
          }
      });
  }
  \<close>
\<close>

definition reveal_element :: "int \<Rightarrow> node \<Rightarrow> page \<Rightarrow> page" where
  "reveal_element windowHeight i p =
     (let revealPoint = 100;
          elementTop = rect_top (elem p i)
      in if elementTop < of_int (windowHeight - revealPoint)
         then modify i (classList_add ''active'') p
         else p)"

definition revealOnScroll :: "page \<Rightarrow> page" where
  "revealOnScroll p =
     (let revealElements = querySelectorAll p sel_reveal;
          windowHeight = innerHeight p
      in fold (reveal_element windowHeight) revealElements p)"

section \<open>Active navigation link\<close>

text \<open>
  \<^verbatim>\<open>
  function updateActiveNavLink() {
      const sections = document.querySelectorAll('section[id]');
      const navLinks = document.querySelectorAll('.nav-links a');
      let current = '';
      sections.forEach(section => {
          const sectionTop = section.offsetTop;
          const sectionHeight = section.clientHeight;
          if (window.pageYOffset >= sectionTop - 200) {
              current = section.getAttribute('id');
          }
      });
      navLinks.forEach(link => {
          link.classList.remove('active');
          if (link.getAttribute('href') === `#${current}`) {
              link.classList.add('active');
          }
      });
  }
  \<close>
  \<open>getAttribute\<close> returns a string or \<open>null\<close>, so \<open>current\<close> is a \<open>string option\<close>
  (\<open>None\<close> is \<open>null\<close>, which the template literal prints as \<open>null\<close>).
\<close>

definition mark_section :: "page \<Rightarrow> node \<Rightarrow> string option \<Rightarrow> string option" where
  "mark_section p section current =
     (let sectionTop = offsetTop (elem p section);
          sectionHeight = clientHeight (elem p section)
      in if pageYOffset p \<ge> of_int (sectionTop - 200)
         then getAttribute (elem p section) ''id''
         else current)"

definition current_section :: "page \<Rightarrow> string option" where
  "current_section p = fold (mark_section p) (querySelectorAll p sel_section_id) (Some '''')"

definition hash_of :: "string option \<Rightarrow> string" where
  "hash_of current = ''#'' @ (case current of None \<Rightarrow> ''null'' | Some s \<Rightarrow> s)"

definition mark_link :: "string option \<Rightarrow> node \<Rightarrow> page \<Rightarrow> page" where
  "mark_link current link p =
     (let p1 = modify link (classList_remove ''active'') p
      in if getAttribute (elem p1 link) ''href'' = Some (hash_of current)
         then modify link (classList_add ''active'') p1
         else p1)"

definition updateActiveNavLink :: "page \<Rightarrow> page" where
  "updateActiveNavLink p =
     (let navLinks = querySelectorAll p sel_nav_link;
          current = current_section p
      in fold (mark_link current) navLinks p)"

section \<open>Smooth scrolling\<close>

text \<open>
  \<^verbatim>\<open>
  function initSmoothScrolling() {
      document.querySelectorAll('a[href^="#"]').forEach(anchor => {
          anchor.addEventListener('click', function (e) {
              e.preventDefault();
              const target = document.querySelector(this.getAttribute('href'));
              if (target) {
                  target.scrollIntoView({ behavior: 'smooth', block: 'start' });
              }
          });
      });
  }
  \<close>
  The anchors that get the listener are those of the query. The handler's selector is
  the text of the \<open>href\<close> attribute, so the selector engine is called with an
  arbitrary string: it is a parameter \<open>engine\<close> of the handler, which returns the
  first match, no match, or the \<open>SyntaxError\<close> the browser throws on a string that
  is not a selector (the bare \<open>#\<close>, for one). The handler writes nothing to the
  document; what it does is its outcome.
\<close>



datatype scroll_behavior = Smooth | Instant | AutoBehavior

datatype scroll_block = Start | Center | End | Nearest






section \<open>JavaScript numbers\<close>

text \<open>
  A JavaScript number is an IEEE 754 binary64 value: \<open>NaN\<close>, an infinity, or a finite
  value, here a rational \<open>m * 2^q\<close> with \<open>\<bar>m\<bar> \<le> 2^53\<close> and \<open>-1074 \<le> q\<close>. Each
  arithmetic operation returns the exact result rounded to the nearest such value, ties
  to the even significand (\<open>fl\<close>), and an infinity when the rounded magnitude reaches
  \<open>2^1024\<close>. The sign of zero is not modelled: the script never divides by a zero,
  and a negative zero can only be a target, which is written as it is.
\<close>

text \<open>For \<open>0 < x\<close>, \<open>ilog2 x\<close> is the exponent \<open>e\<close> with \<open>2^e \<le> x < 2^(e + 1)\<close>.\<close>

definition ilog2 :: "rat \<Rightarrow> int" where
  "ilog2 x = (if 1 \<le> x then bitlen \<lfloor>x\<rfloor> - 1 else - bitlen (\<lceil>1 / x\<rceil> - 1))"

definition round_even :: "rat \<Rightarrow> int" where
  "round_even r =
     (let f = \<lfloor>r\<rfloor>; d = r - of_int f
      in if d < 1 / 2 then f else if 1 / 2 < d then f + 1 else if even f then f else f + 1)"

definition ulp_exp :: "rat \<Rightarrow> int" where
  "ulp_exp x = max (ilog2 \<bar>x\<bar> - 52) (- 1074)"

definition fl :: "rat \<Rightarrow> rat" where
  "fl x =
     (if x = 0 then 0
      else sgn x * of_int (round_even (\<bar>x\<bar> / 2 powi ulp_exp x)) * 2 powi ulp_exp x)"

datatype jsnum = NaN | NInf | Fin rat | PInf

definition round_num :: "rat \<Rightarrow> jsnum" where
  "round_num x =
     (let r = fl x
      in if 2 ^ 1024 \<le> r then PInf else if r \<le> - (2 ^ 1024) then NInf else Fin r)"

fun js_add :: "jsnum \<Rightarrow> jsnum \<Rightarrow> jsnum" where
  "js_add NaN y = NaN"
| "js_add x NaN = NaN"
| "js_add PInf NInf = NaN"
| "js_add NInf PInf = NaN"
| "js_add PInf y = PInf"
| "js_add x PInf = PInf"
| "js_add NInf y = NInf"
| "js_add x NInf = NInf"
| "js_add (Fin a) (Fin b) = round_num (a + b)"

fun js_div :: "jsnum \<Rightarrow> jsnum \<Rightarrow> jsnum" where
  "js_div NaN y = NaN"
| "js_div x NaN = NaN"
| "js_div (Fin a) (Fin b) =
     (if b = 0 then (if a = 0 then NaN else if 0 < a then PInf else NInf)
      else round_num (a / b))"
| "js_div (Fin a) y = Fin 0"
| "js_div PInf (Fin b) = (if 0 \<le> b then PInf else NInf)"
| "js_div NInf (Fin b) = (if 0 \<le> b then NInf else PInf)"
| "js_div x y = NaN"

text \<open>\<open>x >= y\<close>\<close>

fun js_ge :: "jsnum \<Rightarrow> jsnum \<Rightarrow> bool" where
  "js_ge NaN y = False"
| "js_ge x NaN = False"
| "js_ge PInf y = True"
| "js_ge x NInf = True"
| "js_ge (Fin a) (Fin b) = (b \<le> a)"
| "js_ge x y = False"

text \<open>\<open>Math.floor\<close>\<close>

fun js_floor :: "jsnum \<Rightarrow> jsnum" where
  "js_floor (Fin a) = Fin (of_int \<lfloor>a\<rfloor>)"
| "js_floor x = x"

subsection \<open>\<open>parseInt\<close> with no radix\<close>

text \<open>
  Leading white space is skipped, then an optional sign, then the prefix \<open>0x\<close> or
  \<open>0X\<close> (which makes the radix 16); the longest run of digits of the radix is the
  number, and no digit at all gives \<open>NaN\<close>. The number is the value of the digits,
  rounded (a browser may approximate it after the 20th significant digit). Strings are
  byte strings: of the white space characters only the ASCII ones are modelled.
\<close>

definition is_white :: "char \<Rightarrow> bool" where
  "is_white c = (c \<in> {CHR 0x09, CHR 0x0A, CHR 0x0B, CHR 0x0C, CHR 0x0D, CHR 0x20})"

definition digit_of :: "char \<Rightarrow> int option" where
  "digit_of c =
     (let n = of_char c :: int
      in if 48 \<le> n \<and> n \<le> 57 then Some (n - 48)
         else if 97 \<le> n \<and> n \<le> 122 then Some (n - 87)
         else if 65 \<le> n \<and> n \<le> 90 then Some (n - 55)
         else None)"

definition is_digit :: "int \<Rightarrow> char \<Rightarrow> bool" where
  "is_digit R c = (case digit_of c of None \<Rightarrow> False | Some d \<Rightarrow> d < R)"

definition digits_value :: "int \<Rightarrow> string \<Rightarrow> int" where
  "digits_value R Z = foldl (\<lambda>acc c. acc * R + (case digit_of c of None \<Rightarrow> 0 | Some d \<Rightarrow> d)) 0 Z"

definition parseInt :: "string \<Rightarrow> jsnum" where
  "parseInt s =
     (let S = dropWhile is_white s;
          (sign, S1) = (case S of
                          [] \<Rightarrow> (1, S)
                        | c # r \<Rightarrow> if c = CHR ''-'' then (- 1, r)
                                   else if c = CHR ''+'' then (1, r) else (1, S));
          (R, S2) = (if take 2 S1 = ''0x'' \<or> take 2 S1 = ''0X'' then (16, drop 2 S1)
                     else (10, S1));
          Z = takeWhile (is_digit R) S2
      in if Z = [] then NaN else round_num (of_int (sign * digits_value R Z)))"

section \<open>Animated counter\<close>

text \<open>
  \<^verbatim>\<open>
  function animateCounter(element, target) {
      const duration = 2000; // 2 seconds
      const start = 0;
      const increment = target / (duration / 16); // 60fps
      let current = start;
      const timer = setInterval(() => {
          current += increment;
          if (current >= target) {
              element.textContent = target.toLocaleString();
              clearInterval(timer);
          } else {
              element.textContent = Math.floor(current).toLocaleString();
          }
      }, 16);
  }
  \<close>
  A call creates one interval timer, whose closure holds \<open>element\<close>, \<open>target\<close>,
  \<open>increment\<close> and \<open>current\<close>; \<open>cleared\<close> records \<open>clearInterval\<close>. The browser
  runs the callback (\<open>tick\<close>) every 16 ms for as long as the timer is not cleared.
  \<open>toLocaleString\<close> depends on the locale of the browser: it is a parameter.
\<close>

record counter =
  c_element :: node
  c_target :: jsnum
  c_increment :: jsnum
  c_current :: jsnum
  cleared :: bool

definition animateCounter :: "node \<Rightarrow> jsnum \<Rightarrow> counter" where
  "animateCounter element target =
     (let duration = Fin 2000;
          start = Fin 0;
          increment = js_div target (js_div duration (Fin 16));
          current = start
      in \<lparr>c_element = element, c_target = target, c_increment = increment,
          c_current = current, cleared = False\<rparr>)"

definition set_text :: "string \<Rightarrow> element \<Rightarrow> element" where
  "set_text s e = e\<lparr>textContent := s\<rparr>"

definition tick :: "(jsnum \<Rightarrow> string) \<Rightarrow> counter \<times> page \<Rightarrow> counter \<times> page" where
  "tick toLocaleString cp =
     (let (c, p) = cp;
          current = js_add (c_current c) (c_increment c)
      in if js_ge current (c_target c)
         then (c\<lparr>c_current := current, cleared := True\<rparr>,
               modify (c_element c) (set_text (toLocaleString (c_target c))) p)
         else (c\<lparr>c_current := current\<rparr>,
               modify (c_element c) (set_text (toLocaleString (js_floor current))) p))"

text \<open>What the browser does every 16 ms: nothing once the timer is cleared.\<close>

definition interval_fires :: "(jsnum \<Rightarrow> string) \<Rightarrow> counter \<times> page \<Rightarrow> counter \<times> page" where
  "interval_fires toLocaleString cp = (if cleared (fst cp) then cp else tick toLocaleString cp)"

section \<open>Intersection observers\<close>

text \<open>
  An \<open>IntersectionObserver\<close> holds the set of targets it observes. The browser calls
  its callback with a list of entries, each naming a target and whether it intersects;
  it queues entries only for targets the observer observes at that time
  (\<open>delivered\<close>). The running interval timers of the page are part of the state.
\<close>

record entry =
  target :: node
  isIntersecting :: bool

record world =
  doc :: page
  intervals :: "counter list"
  statsObserved :: "node set"
  imagesObserved :: "node set"

definition delivered :: "node set \<Rightarrow> entry list \<Rightarrow> entry list" where
  "delivered observed entries = filter (\<lambda>e. target e \<in> observed) entries"

subsection \<open>Stats section\<close>

text \<open>
  \<^verbatim>\<open>
  function initStatsObserver() {
      const statsObserver = new IntersectionObserver((entries) => {
          entries.forEach(entry => {
              if (entry.isIntersecting) {
                  const statNumbers = entry.target.querySelectorAll('.stat-number');
                  statNumbers.forEach(stat => {
                      const target = parseInt(stat.textContent.replace(/,/g, ''));
                      stat.textContent = '0';
                      animateCounter(stat, target);
                  });
                  // Unobserve after animation to prevent re-triggering
                  statsObserver.unobserve(entry.target);
              }
          });
      }, { threshold: 0.5 });
      const statsSection = document.querySelector('.stats');
      if (statsSection) {
          statsObserver.observe(statsSection);
      }
  }
  \<close>
\<close>

text \<open>\<open>.stat-number\<close> below the element \<open>t\<close>\<close>

definition sel_stat_number_in :: "node \<Rightarrow> page \<Rightarrow> node \<Rightarrow> bool" where
  "sel_stat_number_in t p i =
     (''stat-number'' \<in> classList (elem p i) \<and> t \<in> set (ancestors p i))"

definition remove_commas :: "string \<Rightarrow> string" where
  "remove_commas s = filter (\<lambda>c. c \<noteq> CHR '','') s"

definition start_stat :: "node \<Rightarrow> world \<Rightarrow> world" where
  "start_stat stat w =
     (let target = parseInt (remove_commas (textContent (elem (doc w) stat)));
          w1 = w\<lparr>doc := modify stat (set_text ''0'') (doc w)\<rparr>
      in w1\<lparr>intervals := intervals w1 @ [animateCounter stat target]\<rparr>)"

definition stats_entry :: "entry \<Rightarrow> world \<Rightarrow> world" where
  "stats_entry entry w =
     (if isIntersecting entry
      then let statNumbers = querySelectorAll (doc w) (sel_stat_number_in (target entry));
               w1 = fold start_stat statNumbers w
           in w1\<lparr>statsObserved := statsObserved w1 - {target entry}\<rparr>
      else w)"

definition stats_callback :: "entry list \<Rightarrow> world \<Rightarrow> world" where
  "stats_callback entries w = fold stats_entry entries w"

definition stats_intersection :: "entry list \<Rightarrow> world \<Rightarrow> world" where
  "stats_intersection entries w = stats_callback (delivered (statsObserved w) entries) w"

definition initStatsObserver :: "world \<Rightarrow> world" where
  "initStatsObserver w =
     (case querySelector (doc w) (sel_class ''stats'') of
        None \<Rightarrow> w\<lparr>statsObserved := {}\<rparr>
      | Some statsSection \<Rightarrow> w\<lparr>statsObserved := {statsSection}\<rparr>)"

subsection \<open>Lazy loading\<close>

text \<open>
  \<^verbatim>\<open>
  function initLazyLoading() {
      const images = document.querySelectorAll('img[data-src]');
      const imageObserver = new IntersectionObserver((entries, observer) => {
          entries.forEach(entry => {
              if (entry.isIntersecting) {
                  const img = entry.target;
                  img.src = img.dataset.src;
                  img.classList.add('loaded');
                  observer.unobserve(img);
              }
          });
      });
      images.forEach(img => imageObserver.observe(img));
  }
  \<close>
  \<open>img.dataset.src\<close> is the value of the attribute \<open>data-src\<close>, and \<open>undefined\<close>
  without it; assigning \<open>img.src\<close> sets the attribute \<open>src\<close> to the string of the
  value.
\<close>

text \<open>\<open>img[data-src]\<close>\<close>

definition sel_img_data_src :: "page \<Rightarrow> node \<Rightarrow> bool" where
  "sel_img_data_src p i =
     (tagName (elem p i) = ''img'' \<and> getAttribute (elem p i) ''data-src'' \<noteq> None)"

definition dataset_src :: "element \<Rightarrow> string" where
  "dataset_src e = (case getAttribute e ''data-src'' of None \<Rightarrow> ''undefined'' | Some v \<Rightarrow> v)"

definition load_image :: "element \<Rightarrow> element" where
  "load_image e = classList_add ''loaded'' (setAttribute ''src'' (dataset_src e) e)"

definition image_entry :: "entry \<Rightarrow> world \<Rightarrow> world" where
  "image_entry entry w =
     (if isIntersecting entry
      then let img = target entry
           in w\<lparr>doc := modify img load_image (doc w),
                imagesObserved := imagesObserved w - {img}\<rparr>
      else w)"

definition image_callback :: "entry list \<Rightarrow> world \<Rightarrow> world" where
  "image_callback entries w = fold image_entry entries w"

definition image_intersection :: "entry list \<Rightarrow> world \<Rightarrow> world" where
  "image_intersection entries w = image_callback (delivered (imagesObserved w) entries) w"

definition initLazyLoading :: "world \<Rightarrow> world" where
  "initLazyLoading w = w\<lparr>imagesObserved := set (querySelectorAll (doc w) sel_img_data_src)\<rparr>"

section \<open>Debounce\<close>

text \<open>
  \<^verbatim>\<open>
  function debounce(func, wait = 20) {
      let timeout;
      return function executedFunction(...args) {
          const later = () => {
              clearTimeout(timeout);
              func(...args);
          };
          clearTimeout(timeout);
          timeout = setTimeout(later, wait);
      };
  }
  \<close>
  The state of one debounced function: the closure variable \<open>timeout\<close>
  (\<open>None\<close> is \<open>undefined\<close>), the browser's table of the timeouts that are set and
  have neither fired nor been cleared (handle, due time, and the arguments the closure
  \<open>later\<close> holds), the next handle, and the log of the calls of \<open>func\<close> with their
  times. Time is counted in milliseconds; a timeout fires at its due time.
\<close>

record 'a debounced =
  timeout :: "nat option"
  pending :: "(nat \<times> nat \<times> 'a) list"
  next_handle :: nat
  executed :: "(nat \<times> 'a) list"

definition debounce :: "'a debounced" where
  "debounce = \<lparr>timeout = None, pending = [], next_handle = 1, executed = []\<rparr>"

definition clearTimeout :: "nat option \<Rightarrow> (nat \<times> nat \<times> 'a) list \<Rightarrow> (nat \<times> nat \<times> 'a) list" where
  "clearTimeout h timers = (case h of None \<Rightarrow> timers | Some i \<Rightarrow> filter (\<lambda>t. fst t \<noteq> i) timers)"

definition executedFunction :: "nat \<Rightarrow> nat \<Rightarrow> 'a \<Rightarrow> 'a debounced \<Rightarrow> 'a debounced" where
  "executedFunction wait now args d =
     (let timers = clearTimeout (timeout d) (pending d);
          h = next_handle d
      in d\<lparr>timeout := Some h, pending := timers @ [(h, now + wait, args)],
           next_handle := Suc h\<rparr>)"

text \<open>The timeout \<open>t\<close> fires: it leaves the table, and \<open>later\<close> runs.\<close>

definition later :: "nat \<times> nat \<times> 'a \<Rightarrow> 'a debounced \<Rightarrow> 'a debounced" where
  "later t d =
     (let timers = filter (\<lambda>u. fst u \<noteq> fst t) (pending d)
      in d\<lparr>pending := clearTimeout (timeout d) timers,
           executed := executed d @ [(fst (snd t), snd (snd t))]\<rparr>)"

text \<open>
  Time passes up to \<open>now\<close>: the timeouts due by then fire in the order of their due
  times (a timeout that an earlier one cleared does not fire).
\<close>

definition fire_if_due :: "nat \<Rightarrow> nat \<times> nat \<times> 'a \<Rightarrow> 'a debounced \<Rightarrow> 'a debounced" where
  "fire_if_due now t d =
     (if fst t \<in> fst ` set (pending d) \<and> fst (snd t) \<le> now then later t d else d)"

definition advance :: "nat \<Rightarrow> 'a debounced \<Rightarrow> 'a debounced" where
  "advance now d = fold (fire_if_due now) (sort_key (\<lambda>t. fst (snd t)) (pending d)) d"

text \<open>A call of the debounced function at time \<open>now\<close>, after the timeouts due by then.\<close>

definition call_at :: "nat \<Rightarrow> nat \<times> 'a \<Rightarrow> 'a debounced \<Rightarrow> 'a debounced" where
  "call_at wait c d = executedFunction wait (fst c) (snd c) (advance (fst c) d)"

text \<open>All the calls, in the order of their times, and then the time it takes for every
  timeout that is still set to fire.\<close>

definition run_calls :: "nat \<Rightarrow> (nat \<times> 'a) list \<Rightarrow> 'a debounced" where
  "run_calls wait calls =
     (let d = fold (call_at wait) calls debounce
      in advance (fold max (map (\<lambda>t. fst (snd t)) (pending d)) 0) d)"

text \<open>A burst: calls in the order of time, each less than \<open>wait\<close> after the one before.\<close>

fun burst :: "nat \<Rightarrow> (nat \<times> 'a) list \<Rightarrow> bool" where
  "burst wait [] = True"
| "burst wait [c] = True"
| "burst wait (c # c' # cs) = (fst c \<le> fst c' \<and> fst c' < fst c + wait \<and> burst wait (c' # cs))"

section \<open>The page's events\<close>

text \<open>
  \<^verbatim>\<open>
  document.addEventListener('DOMContentLoaded', () => {
      initSmoothScrolling();
      window.addEventListener('scroll', debounce(revealOnScroll, 10));
      revealOnScroll(); // Initial check on page load
      initStatsObserver();
      // initMobileNavigation(); // Uncomment if needed
      initLazyLoading();
      window.addEventListener('scroll', debounce(updateActiveNavLink, 10));
  });
  window.addEventListener('load', () => {
      document.body.classList.add('loaded');
  });
  \<close>
  After the page is ready, the handlers that write to the document are: the two
  debounced scroll handlers, the two observer callbacks, the interval timers of the
  counters, and the \<open>load\<close> handler. The user and the browser change the layout
  (scrolling, resizing). An event is one of these.
\<close>

definition DOMContentLoaded :: "page \<Rightarrow> world" where
  "DOMContentLoaded p =
     initLazyLoading (initStatsObserver
       \<lparr>doc = revealOnScroll p, intervals = [], statsObserved = {}, imagesObserved = {}\<rparr>)"

text \<open>\<open>document.body\<close>\<close>

definition sel_body :: "page \<Rightarrow> node \<Rightarrow> bool" where
  "sel_body p i = (tagName (elem p i) = ''body'')"

definition window_load :: "page \<Rightarrow> page" where
  "window_load p =
     (case querySelector p sel_body of
        None \<Rightarrow> p
      | Some body \<Rightarrow> modify body (classList_add ''loaded'') p)"

definition relayout :: "rat \<Rightarrow> int \<Rightarrow> (node \<Rightarrow> rat) \<Rightarrow> (node \<Rightarrow> int) \<Rightarrow> page \<Rightarrow> page" where
  "relayout y h tops offs p =
     p\<lparr>elements := map (\<lambda>i. (elem p i)\<lparr>rect_top := tops i, offsetTop := offs i\<rparr>)
                       [0..<length (elements p)],
       innerHeight := h, pageYOffset := y\<rparr>"

definition interval_event :: "(jsnum \<Rightarrow> string) \<Rightarrow> nat \<Rightarrow> world \<Rightarrow> world" where
  "interval_event toLocaleString k w =
     (if k < length (intervals w)
      then let (c, p) = interval_fires toLocaleString (intervals w ! k, doc w)
           in w\<lparr>doc := p, intervals := (intervals w)[k := c]\<rparr>
      else w)"

datatype event =
    Layout rat int "node \<Rightarrow> rat" "node \<Rightarrow> int"
  | ScrollReveal
  | ScrollNav
  | StatsEntries "entry list"
  | ImageEntries "entry list"
  | Interval nat
  | Load

fun step :: "(jsnum \<Rightarrow> string) \<Rightarrow> event \<Rightarrow> world \<Rightarrow> world" where
  "step L (Layout y h tops offs) w = w\<lparr>doc := relayout y h tops offs (doc w)\<rparr>"
| "step L ScrollReveal w = w\<lparr>doc := revealOnScroll (doc w)\<rparr>"
| "step L ScrollNav w = w\<lparr>doc := updateActiveNavLink (doc w)\<rparr>"
| "step L (StatsEntries es) w = stats_intersection es w"
| "step L (ImageEntries es) w = image_intersection es w"
| "step L (Interval k) w = interval_event L k w"
| "step L Load w = w\<lparr>doc := window_load (doc w)\<rparr>"

section \<open>Derived forms and example pages\<close>

text \<open>
  The body of each \<open>forEach\<close> writes only the element it is called with, so each loop
  is a map over the matched elements: \<open>reveal_fn\<close> and \<open>link_fn\<close> are what the two
  scroll handlers do to one matched element (lemmas \<open>reveal_element_modify\<close> and
  \<open>mark_link_modify\<close> below).
\<close>

definition reveal_fn :: "int \<Rightarrow> element \<Rightarrow> element" where
  "reveal_fn windowHeight e =
     (if rect_top e < of_int (windowHeight - 100) then classList_add ''active'' e else e)"

definition link_fn :: "string option \<Rightarrow> element \<Rightarrow> element" where
  "link_fn current e =
     (let e1 = classList_remove ''active'' e
      in if getAttribute e1 ''href'' = Some (hash_of current)
         then classList_add ''active'' e1 else e1)"

text \<open>A section is in view when the scroll position has reached 200 px above its top.\<close>

definition in_view :: "page \<Rightarrow> node \<Rightarrow> bool" where
  "in_view p s = (of_int (offsetTop (elem p s) - 200) \<le> pageYOffset p)"

definition sections_in_view :: "page \<Rightarrow> node list" where
  "sections_in_view p = filter (in_view p) (querySelectorAll p sel_section_id)"

definition mk_element ::
  "string \<Rightarrow> (string \<times> string) list \<Rightarrow> string list \<Rightarrow> node option \<Rightarrow> string \<Rightarrow> rat \<Rightarrow> int
     \<Rightarrow> element" where
  "mk_element t as cs par txt y off =
     \<lparr>tagName = t, attributes = map_of as, classList = set cs, parentNode = par,
      textContent = txt, rect_top = y, offsetTop = off, clientHeight = 0\<rparr>"

text \<open>
  A page scrolled to 700 px: a list of navigation links (the second one is also a
  \<open>reveal\<close> element), two sections, a revealed block that has left the viewport (its
  top is at 1000 px in a window of 500 px) and a block that has just entered it.
\<close>

definition page_nav :: page where
  "page_nav = \<lparr>elements =
      [mk_element ''ul'' [] [''nav-links''] None [] 0 0,
       mk_element ''a'' [(''href'', ''#'')] [''active''] (Some 0) ''Top'' 0 0,
       mk_element ''a'' [(''href'', ''#home'')] [''reveal''] (Some 0) ''Home'' 0 0,
       mk_element ''a'' [(''href'', ''#about'')] [] (Some 0) ''About'' 0 0,
       mk_element ''section'' [(''id'', ''home'')] [] None [] (- 400) 300,
       mk_element ''section'' [(''id'', ''about'')] [] None [] 100 800,
       mk_element ''div'' [] [''reveal'', ''active''] None [] 1000 1700,
       mk_element ''div'' [] [''reveal''] None [] 200 900],
     innerHeight = 500, pageYOffset = 700\<rparr>"

text \<open>The same page at the very top: no section is in view.\<close>

definition page_top :: page where
  "page_top = relayout 0 500 (\<lambda>i. [0, 0, 0, 0, 300, 800, 1700, 900] ! i)
                (\<lambda>i. [0, 0, 0, 0, 300, 800, 1700, 900] ! i) page_nav"



text \<open>
  What no handler of the script changes in an element: its tag, its parent, its
  attributes other than \<open>src\<close>, and its classes other than \<open>active\<close> and \<open>loaded\<close>.
\<close>

definition evolves :: "element \<Rightarrow> element \<Rightarrow> bool" where
  "evolves e e' =
     (tagName e' = tagName e \<and> parentNode e' = parentNode e \<and>
      (\<forall>a. a \<noteq> ''src'' \<longrightarrow> getAttribute e' a = getAttribute e a) \<and>
      (\<forall>c. c \<noteq> ''active'' \<and> c \<noteq> ''loaded'' \<longrightarrow> (c \<in> classList e' \<longleftrightarrow> c \<in> classList e)))"

definition same_structure :: "page \<Rightarrow> page \<Rightarrow> bool" where
  "same_structure p p' =
     (length (elements p') = length (elements p) \<and>
      (\<forall>i<length (elements p). evolves (elem p i) (elem p' i)))"

text \<open>The example page once it is ready, and a \<open>toLocaleString\<close> for the examples.\<close>

definition world_nav :: world where
  "world_nav = DOMContentLoaded page_nav"

definition plain :: "jsnum \<Rightarrow> string" where
  "plain x = (case x of NaN \<Rightarrow> ''NaN'' | PInf \<Rightarrow> ''Infinity'' | NInf \<Rightarrow> ''-Infinity''
              | Fin q \<Rightarrow> ''number'')"

text \<open>
  A page with a stats section (two numbers, the second one with no digits in front) and
  two lazy images.
\<close>

definition page_stats :: page where
  "page_stats = \<lparr>elements =
      [mk_element ''div'' [] [''stats''] None [] 900 900,
       mk_element ''span'' [] [''stat-number''] (Some 0) ''1,250'' 900 900,
       mk_element ''span'' [] [''stat-number''] (Some 0) ''N/A'' 900 900,
       mk_element ''img'' [(''src'', ''placeholder.gif''), (''data-src'', ''photo.jpg'')] []
         None [] 1500 1500,
       mk_element ''img'' [(''data-src'', ''map.jpg'')] [] None [] 2500 2500],
     innerHeight = 500, pageYOffset = 0\<rparr>"

definition world_stats :: world where
  "world_stats = DOMContentLoaded page_stats"

text \<open>An event in which the image \<open>i\<close> is reported to intersect.\<close>

fun image_intersects :: "node \<Rightarrow> event \<Rightarrow> bool" where
  "image_intersects i (ImageEntries es) = list_ex (\<lambda>e. target e = i \<and> isIntersecting e) es"
| "image_intersects i ev = False"

text \<open>Example events on \<open>page_stats\<close>.\<close>

definition quiet_events :: "event list" where
  "quiet_events =
     [ScrollReveal,
      ImageEntries [\<lparr>target = 3, isIntersecting = False\<rparr>, \<lparr>target = 4, isIntersecting = True\<rparr>],
      Load]"

definition image3_visible :: "entry list" where
  "image3_visible = [\<lparr>target = 3, isIntersecting = True\<rparr>]"

definition stats_visible :: "entry list" where
  "stats_visible = [\<lparr>target = 0, isIntersecting = True\<rparr>]"

text \<open>
  A finite JavaScript number: a rational that is its own rounding and lies below the
  overflow threshold.
\<close>

definition is_double :: "rat \<Rightarrow> bool" where
  "is_double t = (fl t = t \<and> \<bar>t\<bar> < 2 ^ 1024)"

text \<open>
  One run of \<open>animateCounter\<close>: the timer and the page after the first \<open>n\<close> times the
  browser has run the interval. \<open>displayed\<close> is the number the last tick has written
  (the floor of the accumulator, or the target once the timer is cleared).
\<close>

definition counter_run ::
  "(jsnum \<Rightarrow> string) \<Rightarrow> node \<Rightarrow> jsnum \<Rightarrow> page \<Rightarrow> nat \<Rightarrow> counter \<times> page" where
  "counter_run L el T p n = (interval_fires L ^^ n) (animateCounter el T, p)"

definition displayed :: "counter \<Rightarrow> jsnum" where
  "displayed c = (if cleared c then c_target c else js_floor (c_current c))"

text \<open>
  The targets a counter reaches: every number but \<open>NaN\<close> and the positive numbers so
  small that \<open>target / 125\<close> rounds to zero (they are below \<open>2^(-1067)\<close>).
\<close>

fun counts_up :: "jsnum \<Rightarrow> bool" where
  "counts_up NaN = False"
| "counts_up (Fin t) = (is_double t \<and> (t \<le> 0 \<or> 0 < fl (t / 125)))"
| "counts_up x = True"

text \<open>The smallest positive binary64 value.\<close>

definition min_value :: rat where
  "min_value = 2 powi (- 1074)"


text \<open>
  One call of the stats callback with three queued entries for the section of
  \<open>page_stats\<close>: it came into view, left, and came into view again before the
  browser ran the callback.
\<close>

definition stats_visible_twice :: "entry list" where
  "stats_visible_twice =
     [\<lparr>target = 0, isIntersecting = True\<rparr>, \<lparr>target = 0, isIntersecting = False\<rparr>,
      \<lparr>target = 0, isIntersecting = True\<rparr>]"

section \<open>Writes through handles\<close>

lemma length_modify [simp]: "length (elements (modify i f p)) = length (elements p)"
  by (simp add: modify_def)

lemma window_modify [simp]:
  "innerHeight (modify i f p) = innerHeight p" "pageYOffset (modify i f p) = pageYOffset p"
  by (simp_all add: modify_def)

lemma elem_modify:
  "j < length (elements p) \<Longrightarrow>
   elem (modify i f p) j = (if j = i then f (elem p i) else elem p j)"
  by (simp add: modify_def elem_def)

lemma modify_out_of_range: "\<not> i < length (elements p) \<Longrightarrow> modify i f p = p"
  by (simp add: modify_def)

lemma fold_modify_length [simp]:
  "length (elements (fold (\<lambda>i. modify i f) ns p)) = length (elements p)"
  by (induction ns arbitrary: p) simp_all

lemma fold_modify_window [simp]:
  "innerHeight (fold (\<lambda>i. modify i f) ns p) = innerHeight p"
  "pageYOffset (fold (\<lambda>i. modify i f) ns p) = pageYOffset p"
  by (induction ns arbitrary: p) simp_all

lemma fold_modify_elem:
  "distinct ns \<Longrightarrow> j < length (elements p) \<Longrightarrow>
   elem (fold (\<lambda>i. modify i f) ns p) j = (if j \<in> set ns then f (elem p j) else elem p j)"
proof (induction ns arbitrary: p)
  case Nil
  then show ?case by simp
next
  case (Cons n ns)
  have "elem (fold (\<lambda>i. modify i f) ns (modify n f p)) j =
        (if j \<in> set ns then f (elem (modify n f p) j) else elem (modify n f p) j)"
    using Cons.IH [of "modify n f p"] Cons.prems by simp
  then show ?case
    using Cons.prems by (auto simp: elem_modify)
qed

lemma distinct_querySelectorAll [simp]: "distinct (querySelectorAll p sel)"
  by (simp add: querySelectorAll_def)

lemma set_querySelectorAll:
  "set (querySelectorAll p sel) = {i. i < length (elements p) \<and> sel p i}"
  by (auto simp: querySelectorAll_def)

section \<open>Scroll reveal: what one call does\<close>

lemma reveal_element_modify: "reveal_element h = (\<lambda>i. modify i (reveal_fn h))"
  by (rule ext, rule ext) (simp add: reveal_element_def reveal_fn_def modify_def elem_def Let_def)

lemma revealOnScroll_elem:
  "j < length (elements p) \<Longrightarrow>
   elem (revealOnScroll p) j =
     (if sel_reveal p j then reveal_fn (innerHeight p) (elem p j) else elem p j)"
  by (simp add: revealOnScroll_def Let_def reveal_element_modify fold_modify_elem
      set_querySelectorAll)

lemma revealOnScroll_window [simp]:
  "length (elements (revealOnScroll p)) = length (elements p)"
  "innerHeight (revealOnScroll p) = innerHeight p"
  "pageYOffset (revealOnScroll p) = pageYOffset p"
  by (simp_all add: revealOnScroll_def Let_def reveal_element_modify)

section \<open>Active navigation link: what one call does\<close>

lemma mark_link_modify: "mark_link c = (\<lambda>link. modify link (link_fn c))"
  by (rule ext, rule ext) (simp add: mark_link_def link_fn_def Let_def modify_def elem_def)

lemma updateActiveNavLink_elem:
  "j < length (elements p) \<Longrightarrow>
   elem (updateActiveNavLink p) j =
     (if sel_nav_link p j then link_fn (current_section p) (elem p j) else elem p j)"
  by (simp add: updateActiveNavLink_def Let_def mark_link_modify fold_modify_elem
      set_querySelectorAll)

lemma updateActiveNavLink_window [simp]:
  "length (elements (updateActiveNavLink p)) = length (elements p)"
  "innerHeight (updateActiveNavLink p) = innerHeight p"
  "pageYOffset (updateActiveNavLink p) = pageYOffset p"
  by (simp_all add: updateActiveNavLink_def Let_def mark_link_modify)

lemma fold_mark_section:
  "fold (mark_section p) ns c =
     (if filter (in_view p) ns = [] then c
      else getAttribute (elem p (last (filter (in_view p) ns))) ''id'')"
  by (induction ns arbitrary: c rule: rev_induct)
     (simp_all add: mark_section_def in_view_def Let_def)

lemma current_section_eq:
  "current_section p =
     (if sections_in_view p = [] then Some ''''
      else getAttribute (elem p (last (sections_in_view p))) ''id'')"
  by (simp add: current_section_def fold_mark_section sections_in_view_def)

lemma link_fn_active:
  "''active'' \<in> classList (link_fn c e) \<longleftrightarrow> getAttribute e ''href'' = Some (hash_of c)"
  by (simp add: link_fn_def Let_def classList_remove_def classList_add_def getAttribute_def)

lemma link_fn_attributes [simp]: "getAttribute (link_fn c e) a = getAttribute e a"
  by (simp add: link_fn_def Let_def classList_remove_def classList_add_def getAttribute_def)

lemma last_sections_in_view:
  assumes "sections_in_view p \<noteq> []"
  shows "sel_section_id p (last (sections_in_view p))"
proof -
  have "last (sections_in_view p) \<in> set (sections_in_view p)"
    using assms by simp
  then show ?thesis
    by (simp add: sections_in_view_def set_querySelectorAll)
qed

section \<open>Scroll reveal: the class is added and never removed\<close>

text \<open>
  C2, as stated, fails: the claim says that after a call a \<open>reveal\<close> element carries
  \<open>active\<close> exactly when its top is above the reveal line, so that an element that
  has left the viewport loses the class. On \<open>page_nav\<close> the block at handle 6 is at
  1000 px in a window of 500 px and carries the class after the call.
\<close>

theorem revealOnScroll_no_toggle:
  "sel_reveal page_nav 6 \<and>
   ''active'' \<in> classList (elem (revealOnScroll page_nav) 6) \<and>
   \<not> rect_top (elem (revealOnScroll page_nav) 6)
       < of_int (innerHeight (revealOnScroll page_nav) - 100)"
  by code_simp

text \<open>
  C2, amended: after a call of \<open>revealOnScroll\<close>, an element of class \<open>reveal\<close>
  carries \<open>active\<close> exactly when its top is less than the window height minus 100, or
  it carried the class before the call.
\<close>

theorem revealOnScroll_adds_only:
  assumes "i < length (elements p)" and "sel_reveal p i"
  shows "''active'' \<in> classList (elem (revealOnScroll p) i) \<longleftrightarrow>
           rect_top (elem p i) < of_int (innerHeight p - 100) \<or>
           ''active'' \<in> classList (elem p i)"
  using assms by (simp add: revealOnScroll_elem reveal_fn_def classList_add_def)

theorem revealOnScroll_adds_only_witness:
  "7 < length (elements page_nav) \<and> sel_reveal page_nav 7 \<and>
   ''active'' \<notin> classList (elem page_nav 7) \<and>
   ''active'' \<in> classList (elem (revealOnScroll page_nav) 7)"
proof -
  have a: "7 < length (elements page_nav)" and b: "sel_reveal page_nav 7"
    and c: "''active'' \<notin> classList (elem page_nav 7)"
    and d: "rect_top (elem page_nav 7) < of_int (innerHeight page_nav - 100)"
    by code_simp+
  show ?thesis
    using revealOnScroll_adds_only [OF a b] a b c d by simp
qed

section \<open>Active navigation link: the marked section and the marked links\<close>

text \<open>
  C5: after a call of \<open>updateActiveNavLink\<close>, when some section is in view, the
  marked id is the \<open>id\<close> of the last section (in document order) whose \<open>offsetTop\<close>
  minus 200 is at most \<open>pageYOffset\<close>, and a navigation link carries \<open>active\<close>
  exactly when its \<open>href\<close> is \<open>#\<close> followed by that id.
\<close>

theorem updateActiveNavLink_marks_current:
  assumes "sections_in_view p \<noteq> []" and "l < length (elements p)" and "sel_nav_link p l"
  shows "\<exists>ident. getAttribute (elem p (last (sections_in_view p))) ''id'' = Some ident \<and>
           current_section p = Some ident \<and>
           (''active'' \<in> classList (elem (updateActiveNavLink p) l) \<longleftrightarrow>
              getAttribute (elem (updateActiveNavLink p) l) ''href'' = Some (''#'' @ ident))"
proof -
  obtain ident where ident: "getAttribute (elem p (last (sections_in_view p))) ''id'' = Some ident"
    using last_sections_in_view [OF assms(1)] by (auto simp: sel_section_id_def)
  have cur: "current_section p = Some ident"
    using assms(1) ident by (simp add: current_section_eq)
  have "''active'' \<in> classList (elem (updateActiveNavLink p) l) \<longleftrightarrow>
          getAttribute (elem (updateActiveNavLink p) l) ''href'' = Some (''#'' @ ident)"
    using assms(2,3) by (simp add: updateActiveNavLink_elem link_fn_active cur hash_of_def)
  with ident cur show ?thesis by blast
qed

theorem updateActiveNavLink_marks_current_witness:
  "sections_in_view page_nav = [4, 5] \<and> sel_nav_link page_nav 3 \<and>
   current_section page_nav = Some ''about'' \<and>
   getAttribute (elem (updateActiveNavLink page_nav) 3) ''href'' = Some ''#about'' \<and>
   ''active'' \<in> classList (elem (updateActiveNavLink page_nav) 3)"
proof -
  have a: "sections_in_view page_nav = [4, 5]" and b: "3 < length (elements page_nav)"
    and c: "sel_nav_link page_nav 3"
    and d: "getAttribute (elem (updateActiveNavLink page_nav) 3) ''href'' = Some ''#about''"
    and e: "getAttribute (elem page_nav 5) ''id'' = Some ''about''"
    by code_simp+
  have a': "sections_in_view page_nav \<noteq> []"
    using a by simp
  show ?thesis
    using updateActiveNavLink_marks_current [OF a' b c] a c d e by auto
qed

text \<open>
  C10: when \<open>pageYOffset\<close> is less than \<open>offsetTop - 200\<close> for every section with an
  id, the marked id is the empty string, and a navigation link carries \<open>active\<close> after
  the call exactly when its \<open>href\<close> is \<open>#\<close>.
\<close>

theorem updateActiveNavLink_no_section:
  assumes "\<forall>s\<in>set (querySelectorAll p sel_section_id).
             pageYOffset p < of_int (offsetTop (elem p s) - 200)"
    and "l < length (elements p)" and "sel_nav_link p l"
  shows "current_section p = Some '''' \<and>
         (''active'' \<in> classList (elem (updateActiveNavLink p) l) \<longleftrightarrow>
            getAttribute (elem (updateActiveNavLink p) l) ''href'' = Some ''#'')"
proof -
  have "sections_in_view p = []"
    using assms(1) by (auto simp: sections_in_view_def in_view_def filter_empty_conv)
  then have cur: "current_section p = Some ''''"
    by (simp add: current_section_eq)
  then show ?thesis
    using assms(2,3) by (simp add: updateActiveNavLink_elem link_fn_active hash_of_def)
qed

theorem updateActiveNavLink_no_section_witness:
  "querySelectorAll page_top sel_section_id = [4, 5] \<and>
   pageYOffset page_top < of_int (offsetTop (elem page_top 4) - 200) \<and>
   pageYOffset page_top < of_int (offsetTop (elem page_top 5) - 200) \<and>
   current_section page_top = Some '''' \<and>
   ''active'' \<in> classList (elem (updateActiveNavLink page_top) 1) \<and>
   ''active'' \<notin> classList (elem (updateActiveNavLink page_top) 3)"
proof -
  have a: "querySelectorAll page_top sel_section_id = [4, 5]"
    and b: "pageYOffset page_top < of_int (offsetTop (elem page_top 4) - 200)"
    and c: "pageYOffset page_top < of_int (offsetTop (elem page_top 5) - 200)"
    and d: "1 < length (elements page_top)" "3 < length (elements page_top)"
    and e: "sel_nav_link page_top 1" "sel_nav_link page_top 3"
    and f: "getAttribute (elem (updateActiveNavLink page_top) 1) ''href'' = Some ''#''"
           "getAttribute (elem (updateActiveNavLink page_top) 3) ''href'' = Some ''#about''"
    by code_simp+
  have h: "\<forall>s\<in>set (querySelectorAll page_top sel_section_id).
             pageYOffset page_top < of_int (offsetTop (elem page_top s) - 200)"
    using a b c by simp
  show ?thesis
    using updateActiveNavLink_no_section [OF h d(1) e(1)]
      updateActiveNavLink_no_section [OF h d(2) e(2)] a b c f by simp
qed

section \<open>Smooth scrolling\<close>



section \<open>What the handlers leave alone\<close>

lemma evolves_refl [simp]: "evolves e e"
  by (simp add: evolves_def)

lemma evolves_trans: "evolves e1 e2 \<Longrightarrow> evolves e2 e3 \<Longrightarrow> evolves e1 e3"
  by (simp add: evolves_def)

lemma evolves_classList_add:
  "c = ''active'' \<or> c = ''loaded'' \<Longrightarrow> evolves e (classList_add c e)"
  by (auto simp: evolves_def classList_add_def getAttribute_def)

lemma evolves_classList_remove_active: "evolves e (classList_remove ''active'' e)"
  by (auto simp: evolves_def classList_remove_def getAttribute_def)

lemma evolves_reveal_fn: "evolves e (reveal_fn h e)"
  by (simp add: reveal_fn_def evolves_classList_add)

lemma evolves_link_fn: "evolves e (link_fn c e)"
  by (auto simp: evolves_def link_fn_def Let_def classList_add_def classList_remove_def
      getAttribute_def)

lemma evolves_set_text: "evolves e (set_text s e)"
  by (simp add: evolves_def set_text_def getAttribute_def)

lemma evolves_load_image: "evolves e (load_image e)"
  by (auto simp: evolves_def load_image_def classList_add_def setAttribute_def getAttribute_def)

lemma same_structure_refl [simp]: "same_structure p p"
  by (simp add: same_structure_def)

lemma same_structure_trans:
  "same_structure p q \<Longrightarrow> same_structure q r \<Longrightarrow> same_structure p r"
  unfolding same_structure_def by (metis evolves_trans)

lemma same_structure_modify:
  assumes "\<And>e. evolves e (f e)"
  shows "same_structure p (modify i f p)"
  using assms by (simp add: same_structure_def elem_modify)

lemma same_structure_fold_modify:
  assumes "\<And>e. evolves e (f e)"
  shows "same_structure p (fold (\<lambda>i. modify i f) ns p)"
proof (induction ns arbitrary: p)
  case Nil
  show ?case by simp
next
  case (Cons n ns)
  have "same_structure p (modify n f p)"
    using assms by (rule same_structure_modify)
  moreover have "same_structure (modify n f p) (fold (\<lambda>i. modify i f) ns (modify n f p))"
    by (rule Cons.IH)
  ultimately show ?case
    by (simp add: same_structure_trans)
qed

lemma same_structure_revealOnScroll: "same_structure p (revealOnScroll p)"
  by (simp add: revealOnScroll_def Let_def reveal_element_modify same_structure_fold_modify
      evolves_reveal_fn)

lemma same_structure_updateActiveNavLink: "same_structure p (updateActiveNavLink p)"
  by (simp add: updateActiveNavLink_def Let_def mark_link_modify same_structure_fold_modify
      evolves_link_fn)

lemma same_structure_window_load: "same_structure p (window_load p)"
  by (simp add: window_load_def same_structure_modify evolves_classList_add split: option.splits)

lemma length_relayout [simp]: "length (elements (relayout y h tops offs p)) = length (elements p)"
  by (simp add: relayout_def)

lemma elem_relayout:
  "i < length (elements p) \<Longrightarrow>
   elem (relayout y h tops offs p) i = (elem p i)\<lparr>rect_top := tops i, offsetTop := offs i\<rparr>"
  by (simp add: relayout_def elem_def)

lemma same_structure_relayout: "same_structure p (relayout y h tops offs p)"
  by (simp add: same_structure_def elem_relayout evolves_def getAttribute_def)

text \<open>The selectors that depend on the structure only.\<close>

lemma same_structure_ancestors_fuel:
  assumes "same_structure p q" and "i < length (elements p)"
  shows "ancestors_fuel n q i = ancestors_fuel n p i"
  using assms(2)
proof (induction n arbitrary: i)
  case 0
  show ?case by simp
next
  case (Suc n)
  have par: "parentNode (elem q i) = parentNode (elem p i)"
    and len: "length (elements q) = length (elements p)"
    using assms(1) Suc.prems by (simp_all add: same_structure_def evolves_def)
  show ?case
    using Suc.IH by (simp add: par len split: option.splits)
qed

lemma same_structure_ancestors:
  "same_structure p q \<Longrightarrow> i < length (elements p) \<Longrightarrow> ancestors q i = ancestors p i"
  by (simp add: ancestors_def same_structure_ancestors_fuel) (simp add: same_structure_def)

lemma ancestors_fuel_in_range: "j \<in> set (ancestors_fuel n p i) \<Longrightarrow> j < length (elements p)"
  by (induction n arbitrary: i) (auto split: option.splits if_splits)

lemma ancestors_in_range: "j \<in> set (ancestors p i) \<Longrightarrow> j < length (elements p)"
  by (auto simp: ancestors_def dest: ancestors_fuel_in_range)

lemma same_structure_class:
  "same_structure p q \<Longrightarrow> i < length (elements p) \<Longrightarrow> c \<noteq> ''active'' \<Longrightarrow> c \<noteq> ''loaded'' \<Longrightarrow>
   c \<in> classList (elem q i) \<longleftrightarrow> c \<in> classList (elem p i)"
  by (simp add: same_structure_def evolves_def)

lemma same_structure_sel_nav_link:
  assumes "same_structure p q" and "i < length (elements p)"
  shows "sel_nav_link q i = sel_nav_link p i"
proof -
  have "tagName (elem q i) = tagName (elem p i)"
    using assms by (simp add: same_structure_def evolves_def)
  moreover have "\<And>j. j \<in> set (ancestors p i) \<Longrightarrow>
      ''nav-links'' \<in> classList (elem q j) \<longleftrightarrow> ''nav-links'' \<in> classList (elem p j)"
    using assms(1) by (simp add: same_structure_class ancestors_in_range)
  ultimately show ?thesis
    using assms by (auto simp: sel_nav_link_def same_structure_ancestors list_ex_iff)
qed

lemma same_structure_sel_reveal:
  "same_structure p q \<Longrightarrow> i < length (elements p) \<Longrightarrow> sel_reveal q i = sel_reveal p i"
  by (simp add: sel_reveal_def sel_class_def same_structure_class)

lemma same_structure_sel_img:
  "same_structure p q \<Longrightarrow> i < length (elements p) \<Longrightarrow>
   sel_img_data_src q i = sel_img_data_src p i"
  by (simp add: sel_img_data_src_def same_structure_def evolves_def)

lemma same_structure_length:
  "same_structure p q \<Longrightarrow> length (elements q) = length (elements p)"
  by (simp add: same_structure_def)

section \<open>The document after each event\<close>

lemma doc_fold_start_stat:
  "doc (fold start_stat ns w) = fold (\<lambda>i. modify i (set_text ''0'')) ns (doc w)"
  by (induction ns arbitrary: w) (simp_all add: start_stat_def Let_def)

lemma observed_fold_start_stat [simp]:
  "statsObserved (fold start_stat ns w) = statsObserved w"
  "imagesObserved (fold start_stat ns w) = imagesObserved w"
  by (induction ns arbitrary: w) (simp_all add: start_stat_def Let_def)

lemma intervals_fold_start_stat:
  "length (intervals (fold start_stat ns w)) = length (intervals w) + length ns"
  by (induction ns arbitrary: w) (simp_all add: start_stat_def Let_def)

lemma same_structure_stats_entry: "same_structure (doc w) (doc (stats_entry e w))"
  by (simp add: stats_entry_def Let_def doc_fold_start_stat same_structure_fold_modify
      evolves_set_text)

lemma same_structure_stats_callback: "same_structure (doc w) (doc (stats_callback es w))"
  unfolding stats_callback_def
proof (induction es arbitrary: w)
  case Nil
  show ?case by simp
next
  case (Cons e es)
  show ?case
    using same_structure_trans [OF same_structure_stats_entry Cons.IH] by simp
qed

lemma same_structure_image_entry: "same_structure (doc w) (doc (image_entry e w))"
  by (simp add: image_entry_def Let_def same_structure_modify evolves_load_image)

lemma same_structure_image_callback: "same_structure (doc w) (doc (image_callback es w))"
  unfolding image_callback_def
proof (induction es arbitrary: w)
  case Nil
  show ?case by simp
next
  case (Cons e es)
  show ?case
    using same_structure_trans [OF same_structure_image_entry Cons.IH] by simp
qed

lemma doc_interval_event:
  "doc (interval_event L k w) = doc w \<or>
   (\<exists>i s. doc (interval_event L k w) = modify i (set_text s) (doc w))"
  by (auto simp: interval_event_def interval_fires_def tick_def Let_def split: prod.splits)

lemma same_structure_interval_event: "same_structure (doc w) (doc (interval_event L k w))"
  using doc_interval_event [of L k w] by (auto simp: same_structure_modify evolves_set_text)

lemma same_structure_step: "same_structure (doc w) (doc (step L ev w))"
  by (cases ev)
     (simp_all add: same_structure_relayout same_structure_revealOnScroll
        same_structure_updateActiveNavLink same_structure_window_load
        same_structure_interval_event stats_intersection_def image_intersection_def
        same_structure_stats_callback same_structure_image_callback)

lemma same_structure_run: "same_structure (doc w) (doc (fold (step L) evs w))"
proof (induction evs arbitrary: w)
  case Nil
  show ?case by simp
next
  case (Cons ev evs)
  show ?case
    using same_structure_trans [OF same_structure_step Cons.IH] by simp
qed

section \<open>Reveals are permanent, except on navigation links\<close>

lemma modify_keeps_active:
  assumes "\<And>e. ''active'' \<in> classList e \<Longrightarrow> ''active'' \<in> classList (f e)"
    and "i < length (elements p)" and "''active'' \<in> classList (elem p i)"
  shows "''active'' \<in> classList (elem (modify j f p) i)"
  using assms by (auto simp: elem_modify)

lemma fold_modify_keeps_active:
  assumes "\<And>e. ''active'' \<in> classList e \<Longrightarrow> ''active'' \<in> classList (f e)"
    and "i < length (elements p)" and "''active'' \<in> classList (elem p i)"
  shows "''active'' \<in> classList (elem (fold (\<lambda>j. modify j f) ns p) i)"
  using assms(2,3)
proof (induction ns arbitrary: p)
  case Nil
  then show ?case by simp
next
  case (Cons n ns)
  have "''active'' \<in> classList (elem (modify n f p) i)"
    using assms(1) Cons.prems by (rule modify_keeps_active)
  then show ?case
    using Cons.IH [of "modify n f p"] Cons.prems by simp
qed

lemma set_text_classList [simp]: "classList (set_text s e) = classList e"
  by (simp add: set_text_def)

lemma load_image_keeps_active:
  "''active'' \<in> classList e \<Longrightarrow> ''active'' \<in> classList (load_image e)"
  by (simp add: load_image_def classList_add_def setAttribute_def)

lemma stats_callback_keeps_active:
  "i < length (elements (doc w)) \<Longrightarrow> ''active'' \<in> classList (elem (doc w) i) \<Longrightarrow>
   ''active'' \<in> classList (elem (doc (stats_callback es w)) i)"
  unfolding stats_callback_def
proof (induction es arbitrary: w)
  case Nil
  then show ?case by simp
next
  case (Cons e es)
  have a: "''active'' \<in> classList (elem (doc (stats_entry e w)) i)"
    using Cons.prems
    by (simp add: stats_entry_def Let_def doc_fold_start_stat fold_modify_keeps_active)
  have b: "i < length (elements (doc (stats_entry e w)))"
    using Cons.prems(1) same_structure_length [OF same_structure_stats_entry, of e w] by simp
  show ?case
    using Cons.IH [OF b a] by simp
qed

lemma image_callback_keeps_active:
  "i < length (elements (doc w)) \<Longrightarrow> ''active'' \<in> classList (elem (doc w) i) \<Longrightarrow>
   ''active'' \<in> classList (elem (doc (image_callback es w)) i)"
  unfolding image_callback_def
proof (induction es arbitrary: w)
  case Nil
  then show ?case by simp
next
  case (Cons e es)
  have a: "''active'' \<in> classList (elem (doc (image_entry e w)) i)"
    using Cons.prems
    by (simp add: image_entry_def Let_def modify_keeps_active load_image_keeps_active)
  have b: "i < length (elements (doc (image_entry e w)))"
    using Cons.prems(1) same_structure_length [OF same_structure_image_entry, of e w] by simp
  show ?case
    using Cons.IH [OF b a] by simp
qed

lemma interval_event_keeps_active:
  "i < length (elements (doc w)) \<Longrightarrow> ''active'' \<in> classList (elem (doc w) i) \<Longrightarrow>
   ''active'' \<in> classList (elem (doc (interval_event L k w)) i)"
  using doc_interval_event [of L k w] by (auto simp: modify_keeps_active)

lemma step_keeps_active:
  assumes "i < length (elements (doc w))" and "''active'' \<in> classList (elem (doc w) i)"
    and "\<not> sel_nav_link (doc w) i"
  shows "''active'' \<in> classList (elem (doc (step L ev w)) i)"
proof (cases ev)
  case (Layout y h tops offs)
  then show ?thesis using assms by (simp add: elem_relayout)
next
  case ScrollReveal
  then show ?thesis
    using assms by (simp add: revealOnScroll_elem reveal_fn_def classList_add_def)
next
  case ScrollNav
  then show ?thesis using assms by (simp add: updateActiveNavLink_elem)
next
  case (StatsEntries es)
  then show ?thesis
    using assms by (simp add: stats_intersection_def stats_callback_keeps_active)
next
  case (ImageEntries es)
  then show ?thesis
    using assms by (simp add: image_intersection_def image_callback_keeps_active)
next
  case (Interval k)
  then show ?thesis using assms by (simp add: interval_event_keeps_active)
next
  case Load
  then show ?thesis
    using assms
    by (simp add: window_load_def modify_keeps_active classList_add_def split: option.splits)
qed

text \<open>
  C8, as stated, fails: \<open>updateActiveNavLink\<close> removes \<open>active\<close> from every link of
  \<open>.nav-links\<close>, and such a link can be a \<open>reveal\<close> element. On \<open>page_nav\<close> the link
  at handle 2 is one: \<open>revealOnScroll\<close> adds the class, and after the next scroll event
  (both debounced handlers have run) the link does not carry it.
\<close>

theorem reveal_not_permanent_on_nav_link:
  "sel_reveal page_nav 2 \<and>
   ''active'' \<notin> classList (elem page_nav 2) \<and>
   ''active'' \<in> classList (elem (revealOnScroll page_nav) 2) \<and>
   ''active'' \<notin> classList (elem (updateActiveNavLink (revealOnScroll (revealOnScroll page_nav))) 2)"
  by code_simp

text \<open>
  C8, amended: an element of class \<open>reveal\<close> that is not a link selected by
  \<open>.nav-links a\<close> and carries \<open>active\<close> (once \<open>revealOnScroll\<close> has added it) carries
  it, and is still a \<open>reveal\<close> element, after every sequence of events of the page,
  wherever the element is then.
\<close>

theorem reveal_permanent:
  assumes "i < length (elements (doc w))" and "sel_reveal (doc w) i"
    and "''active'' \<in> classList (elem (doc w) i)" and "\<not> sel_nav_link (doc w) i"
  shows "sel_reveal (doc (fold (step L) evs w)) i \<and>
         ''active'' \<in> classList (elem (doc (fold (step L) evs w)) i)"
proof -
  have "''active'' \<in> classList (elem (doc (fold (step L) evs w)) i)"
    using assms(1,3,4)
  proof (induction evs arbitrary: w)
    case Nil
    then show ?case by simp
  next
    case (Cons ev evs)
    have s: "same_structure (doc w) (doc (step L ev w))"
      by (rule same_structure_step)
    have "i < length (elements (doc (step L ev w)))"
      using Cons.prems(1) same_structure_length [OF s] by simp
    moreover have "''active'' \<in> classList (elem (doc (step L ev w)) i)"
      using Cons.prems by (rule step_keeps_active)
    moreover have "\<not> sel_nav_link (doc (step L ev w)) i"
      using Cons.prems(1,3) same_structure_sel_nav_link [OF s] by simp
    ultimately show ?case
      using Cons.IH [of "step L ev w"] by simp
  qed
  moreover have "sel_reveal (doc (fold (step L) evs w)) i"
    using assms(1,2) same_structure_sel_reveal [OF same_structure_run] by simp
  ultimately show ?thesis by simp
qed

theorem reveal_permanent_witness:
  "7 < length (elements (doc world_nav)) \<and> sel_reveal (doc world_nav) 7 \<and>
   ''active'' \<in> classList (elem (doc world_nav) 7) \<and> \<not> sel_nav_link (doc world_nav) 7 \<and>
   ''active'' \<in> classList (elem (doc (fold (step plain)
      [Layout 0 500 (\<lambda>i. 900) (\<lambda>i. 900), ScrollReveal, ScrollNav, Load] world_nav)) 7)"
proof -
  have a: "7 < length (elements (doc world_nav))" and b: "sel_reveal (doc world_nav) 7"
    and c: "''active'' \<in> classList (elem (doc world_nav) 7)"
    and d: "\<not> sel_nav_link (doc world_nav) 7"
    by code_simp+
  show ?thesis
    using reveal_permanent [OF a b c d, of plain
        "[Layout 0 500 (\<lambda>i. 900) (\<lambda>i. 900), ScrollReveal, ScrollNav, Load]"] a b c d
    by blast
qed

section \<open>Lazy loading: one swap per image\<close>

lemma load_image_idem: "load_image (load_image e) = load_image e"
  by (simp add: load_image_def dataset_src_def classList_add_def setAttribute_def
      getAttribute_def)

lemma image_callback_doc_length [simp]:
  "length (elements (doc (image_callback es w))) = length (elements (doc w))"
  using same_structure_length [OF same_structure_image_callback] .

lemma image_callback_elem:
  "i < length (elements (doc w)) \<Longrightarrow>
   elem (doc (image_callback es w)) i =
     (if list_ex (\<lambda>e. target e = i \<and> isIntersecting e) es then load_image (elem (doc w) i)
      else elem (doc w) i)"
  unfolding image_callback_def
proof (induction es arbitrary: w)
  case Nil
  show ?case by simp
next
  case (Cons e es)
  have len: "i < length (elements (doc (image_entry e w)))"
    using Cons.prems by (simp add: image_entry_def Let_def)
  have hd: "elem (doc (image_entry e w)) i =
      (if target e = i \<and> isIntersecting e then load_image (elem (doc w) i) else elem (doc w) i)"
    using Cons.prems by (auto simp: image_entry_def Let_def elem_modify)
  show ?case
    using Cons.IH [OF len] hd by (auto simp: load_image_idem)
qed

lemma image_callback_observed:
  "imagesObserved (image_callback es w) =
     imagesObserved w - {target e |e. e \<in> set es \<and> isIntersecting e}"
  unfolding image_callback_def
proof (induction es arbitrary: w)
  case Nil
  show ?case by simp
next
  case (Cons e es)
  have "imagesObserved (image_entry e w) =
      imagesObserved w - (if isIntersecting e then {target e} else {})"
    by (simp add: image_entry_def Let_def)
  then show ?case
    using Cons.IH [of "image_entry e w"] by auto
qed

lemma image_callback_others [simp]:
  "statsObserved (image_callback es w) = statsObserved w"
  "intervals (image_callback es w) = intervals w"
  unfolding image_callback_def
  by (induction es arbitrary: w) (simp_all add: image_entry_def Let_def)

lemma list_ex_delivered:
  "list_ex P (delivered obs es) \<longleftrightarrow> list_ex (\<lambda>e. target e \<in> obs \<and> P e) es"
  by (auto simp: delivered_def list_ex_iff)

lemma stats_callback_images [simp]:
  "imagesObserved (stats_callback es w) = imagesObserved w"
  unfolding stats_callback_def
  by (induction es arbitrary: w) (simp_all add: stats_entry_def Let_def)

lemma interval_event_observed [simp]:
  "imagesObserved (interval_event L k w) = imagesObserved w"
  "statsObserved (interval_event L k w) = statsObserved w"
  by (simp_all add: interval_event_def Let_def split: prod.splits)

text \<open>The observed images only ever shrink.\<close>

lemma step_imagesObserved:
  "imagesObserved (step L ev w) =
     (case ev of
        ImageEntries es \<Rightarrow>
          imagesObserved w - {target e |e. e \<in> set es \<and> isIntersecting e}
      | _ \<Rightarrow> imagesObserved w)"
  by (cases ev)
     (auto simp: image_intersection_def image_callback_observed stats_intersection_def
        delivered_def)

lemma unobserved_stays:
  "i \<notin> imagesObserved w \<Longrightarrow> i \<notin> imagesObserved (fold (step L) evs w)"
  by (induction evs arbitrary: w) (auto simp: step_imagesObserved split: event.splits)

text \<open>Only the image observer's callback writes an attribute.\<close>

lemma fold_modify_attribute:
  assumes "\<And>e. attributes (f e) = attributes e" and "i < length (elements p)"
  shows "getAttribute (elem (fold (\<lambda>j. modify j f) ns p) i) a = getAttribute (elem p i) a"
  using assms(2)
proof (induction ns arbitrary: p)
  case Nil
  show ?case by simp
next
  case (Cons n ns)
  have "getAttribute (elem (modify n f p) i) a = getAttribute (elem p i) a"
    using assms(1) Cons.prems by (simp add: elem_modify getAttribute_def)
  then show ?case
    using Cons.IH [of "modify n f p"] Cons.prems by simp
qed

lemma stats_callback_attribute:
  "i < length (elements (doc w)) \<Longrightarrow>
   getAttribute (elem (doc (stats_callback es w)) i) a = getAttribute (elem (doc w) i) a"
  unfolding stats_callback_def
proof (induction es arbitrary: w)
  case Nil
  show ?case by simp
next
  case (Cons e es)
  have a: "getAttribute (elem (doc (stats_entry e w)) i) a = getAttribute (elem (doc w) i) a"
    using Cons.prems
    by (simp add: stats_entry_def Let_def doc_fold_start_stat fold_modify_attribute set_text_def)
  have b: "i < length (elements (doc (stats_entry e w)))"
    using Cons.prems same_structure_length [OF same_structure_stats_entry, of e w] by simp
  show ?case
    using Cons.IH [OF b] a by simp
qed

lemma step_attribute:
  assumes "i < length (elements (doc w))"
    and "i \<notin> imagesObserved w \<or> \<not> image_intersects i ev"
  shows "getAttribute (elem (doc (step L ev w)) i) a = getAttribute (elem (doc w) i) a"
proof (cases ev)
  case (Layout y h tops offs)
  then show ?thesis using assms by (simp add: elem_relayout getAttribute_def)
next
  case ScrollReveal
  then show ?thesis
    using assms
    by (simp add: revealOnScroll_elem reveal_fn_def classList_add_def getAttribute_def)
next
  case ScrollNav
  then show ?thesis using assms by (simp add: updateActiveNavLink_elem)
next
  case (StatsEntries es)
  then show ?thesis
    using assms by (simp add: stats_intersection_def stats_callback_attribute)
next
  case (ImageEntries es)
  have "\<not> list_ex (\<lambda>e. target e = i \<and> isIntersecting e) (delivered (imagesObserved w) es)"
    using assms(2) ImageEntries by (auto simp: delivered_def list_ex_iff)
  then show ?thesis
    using assms(1) ImageEntries by (simp add: image_intersection_def image_callback_elem)
next
  case (Interval k)
  then show ?thesis
    using assms doc_interval_event [of L k w]
    by (auto simp: elem_modify set_text_def getAttribute_def)
next
  case Load
  then show ?thesis
    using assms
    by (auto simp: window_load_def elem_modify classList_add_def getAttribute_def
        split: option.splits)
qed

lemma run_length [simp]:
  "length (elements (doc (fold (step L) evs w))) = length (elements (doc w))"
  using same_structure_length [OF same_structure_run] .

lemma step_length [simp]:
  "length (elements (doc (step L ev w))) = length (elements (doc w))"
  using same_structure_length [OF same_structure_step] .

lemma run_attribute_unobserved:
  "i < length (elements (doc w)) \<Longrightarrow> i \<notin> imagesObserved w \<Longrightarrow>
   getAttribute (elem (doc (fold (step L) evs w)) i) a = getAttribute (elem (doc w) i) a"
proof (induction evs arbitrary: w)
  case Nil
  show ?case by simp
next
  case (Cons ev evs)
  have "i \<notin> imagesObserved (step L ev w)"
    using Cons.prems(2) unobserved_stays [of i w L "[ev]"] by simp
  then show ?case
    using Cons.IH [of "step L ev w"] Cons.prems by (simp add: step_attribute)
qed

lemma run_not_intersecting:
  "i < length (elements (doc w)) \<Longrightarrow> \<not> list_ex (image_intersects i) evs \<Longrightarrow>
   getAttribute (elem (doc (fold (step L) evs w)) i) a = getAttribute (elem (doc w) i) a \<and>
   (i \<in> imagesObserved (fold (step L) evs w) \<longleftrightarrow> i \<in> imagesObserved w)"
proof (induction evs arbitrary: w)
  case Nil
  show ?case by simp
next
  case (Cons ev evs)
  have "i \<in> imagesObserved (step L ev w) \<longleftrightarrow> i \<in> imagesObserved w"
    using Cons.prems(2) by (auto simp: step_imagesObserved list_ex_iff split: event.splits)
  then show ?case
    using Cons.IH [of "step L ev w"] Cons.prems by (simp add: step_attribute)
qed

lemma DOMContentLoaded_doc: "doc (DOMContentLoaded p) = revealOnScroll p"
  by (simp add: DOMContentLoaded_def initLazyLoading_def initStatsObserver_def
      split: option.splits)

lemma DOMContentLoaded_images:
  "imagesObserved (DOMContentLoaded p) = {i. i < length (elements p) \<and> sel_img_data_src p i}"
proof -
  have "imagesObserved (DOMContentLoaded p) =
      {i. i < length (elements (revealOnScroll p)) \<and> sel_img_data_src (revealOnScroll p) i}"
    by (simp add: DOMContentLoaded_def initLazyLoading_def initStatsObserver_def
        set_querySelectorAll split: option.splits)
  then show ?thesis
    using same_structure_sel_img [OF same_structure_revealOnScroll, of _ p] by auto
qed

lemma revealOnScroll_attribute:
  "i < length (elements p) \<Longrightarrow>
   getAttribute (elem (revealOnScroll p) i) a = getAttribute (elem p i) a"
  by (simp add: revealOnScroll_elem reveal_fn_def classList_add_def getAttribute_def)

text \<open>
  C6: an image with a \<open>data-src\<close> attribute is observed from the start. As long as no
  event reports it intersecting, it keeps its \<open>src\<close> (\<open>w1\<close>). The first event that
  does (\<open>w2\<close>) sets \<open>src\<close> to the value of \<open>data-src\<close>, adds the class \<open>loaded\<close> and
  unobserves the image. From then on (\<open>w3\<close>) the image is never observed again, the
  browser delivers no entry for it to the callback, and \<open>src\<close> stays what it is.
\<close>

theorem lazy_image_loaded_once:
  assumes "i < length (elements p)" and "sel_img_data_src p i"
    and "\<not> list_ex (image_intersects i) evs1"
    and "image_intersects i (ImageEntries es)"
    and "w1 = fold (step L) evs1 (DOMContentLoaded p)"
    and "w2 = step L (ImageEntries es) w1"
    and "w3 = fold (step L) evs2 w2"
  shows "getAttribute (elem (doc w1) i) ''src'' = getAttribute (elem p i) ''src'' \<and>
         i \<in> imagesObserved w1 \<and>
         getAttribute (elem (doc w2) i) ''src'' = getAttribute (elem p i) ''data-src'' \<and>
         ''loaded'' \<in> classList (elem (doc w2) i) \<and>
         i \<notin> imagesObserved w2 \<and>
         i \<notin> imagesObserved w3 \<and>
         \<not> list_ex (\<lambda>e. target e = i) (delivered (imagesObserved w3) es') \<and>
         getAttribute (elem (doc w3) i) ''src'' = getAttribute (elem p i) ''data-src''"
proof -
  let ?w0 = "DOMContentLoaded p"
  have len0: "i < length (elements (doc ?w0))"
    using assms(1) by (simp add: DOMContentLoaded_doc)
  have obs0: "i \<in> imagesObserved ?w0"
    using assms(1,2) by (simp add: DOMContentLoaded_images)
  have attr0: "getAttribute (elem (doc ?w0) i) a = getAttribute (elem p i) a" for a
    using assms(1) by (simp add: DOMContentLoaded_doc revealOnScroll_attribute)
  have r1: "getAttribute (elem (doc w1) i) a = getAttribute (elem p i) a"
    and obs1: "i \<in> imagesObserved w1" for a
    using run_not_intersecting [OF len0 assms(3), of L a] obs0 attr0 assms(5) by simp_all
  have len1: "i < length (elements (doc w1))"
    using len0 assms(5) by simp
  have del: "list_ex (\<lambda>e. target e = i \<and> isIntersecting e) (delivered (imagesObserved w1) es)"
    using assms(4) obs1 by (auto simp: delivered_def list_ex_iff)
  have e2: "elem (doc w2) i = load_image (elem (doc w1) i)"
    using len1 del assms(6) by (simp add: image_intersection_def image_callback_elem)
  have "\<exists>v. getAttribute (elem p i) ''data-src'' = Some v"
    using assms(2) by (simp add: sel_img_data_src_def)
  then have src2: "getAttribute (elem (doc w2) i) ''src'' = getAttribute (elem p i) ''data-src''"
    using e2 r1 [of "''data-src''"]
    by (auto simp: load_image_def dataset_src_def classList_add_def setAttribute_def
        getAttribute_def)
  have cls2: "''loaded'' \<in> classList (elem (doc w2) i)"
    using e2 by (simp add: load_image_def classList_add_def)
  have obs2: "i \<notin> imagesObserved w2"
    using assms(4,6) step_imagesObserved [of L "ImageEntries es" w1]
    by (auto simp: list_ex_iff)
  have len2: "i < length (elements (doc w2))"
    using len1 assms(6) step_length [of L "ImageEntries es" w1] by simp
  have obs3: "i \<notin> imagesObserved w3"
    using obs2 assms(7) by (simp add: unobserved_stays)
  have src3: "getAttribute (elem (doc w3) i) ''src'' = getAttribute (elem p i) ''data-src''"
    using run_attribute_unobserved [OF len2 obs2, of L evs2] src2 assms(7) by simp
  have none: "\<not> list_ex (\<lambda>e. target e = i) (delivered (imagesObserved w3) es')"
    using obs3 by (auto simp: delivered_def list_ex_iff)
  show ?thesis
    using r1 [of "''src''"] obs1 src2 cls2 obs2 obs3 none src3 by simp
qed

theorem lazy_image_loaded_once_witness:
  "getAttribute (elem (doc (fold (step plain) quiet_events world_stats)) 3) ''src''
     = Some ''placeholder.gif'' \<and>
   3 \<in> imagesObserved (fold (step plain) quiet_events world_stats) \<and>
   getAttribute (elem (doc (step plain (ImageEntries image3_visible)
     (fold (step plain) quiet_events world_stats))) 3) ''src'' = Some ''photo.jpg'' \<and>
   ''loaded'' \<in> classList (elem (doc (step plain (ImageEntries image3_visible)
     (fold (step plain) quiet_events world_stats))) 3) \<and>
   3 \<notin> imagesObserved (fold (step plain) [ImageEntries image3_visible, ScrollNav]
     (step plain (ImageEntries image3_visible) (fold (step plain) quiet_events world_stats))) \<and>
   getAttribute (elem (doc (fold (step plain) [ImageEntries image3_visible, ScrollNav]
     (step plain (ImageEntries image3_visible) (fold (step plain) quiet_events world_stats))))
     3) ''src'' = Some ''photo.jpg''"
proof -
  have a: "3 < length (elements page_stats)" and b: "sel_img_data_src page_stats 3"
    and c: "\<not> list_ex (image_intersects 3) quiet_events"
    and d: "image_intersects 3 (ImageEntries image3_visible)"
    and e: "getAttribute (elem page_stats 3) ''src'' = Some ''placeholder.gif''"
           "getAttribute (elem page_stats 3) ''data-src'' = Some ''photo.jpg''"
    by code_simp+
  show ?thesis
    using lazy_image_loaded_once [OF a b c d refl refl refl, of plain
        "[ImageEntries image3_visible, ScrollNav]"] e
    by (simp add: world_stats_def)
qed

section \<open>Stats section: the animation starts once\<close>

lemma stats_callback_observed:
  "statsObserved (stats_callback es w) =
     statsObserved w - {target e |e. e \<in> set es \<and> isIntersecting e}"
  unfolding stats_callback_def
proof (induction es arbitrary: w)
  case Nil
  show ?case by simp
next
  case (Cons e es)
  have "statsObserved (stats_entry e w) =
      statsObserved w - (if isIntersecting e then {target e} else {})"
    by (simp add: stats_entry_def Let_def)
  then show ?case
    using Cons.IH [of "stats_entry e w"] by auto
qed

lemma step_statsObserved:
  "statsObserved (step L ev w) =
     (case ev of
        StatsEntries es \<Rightarrow>
          statsObserved w -
            {target e |e. e \<in> set (delivered (statsObserved w) es) \<and> isIntersecting e}
      | _ \<Rightarrow> statsObserved w)"
  by (cases ev) (simp_all add: image_intersection_def stats_callback_observed stats_intersection_def)

lemma statsObserved_shrinks: "statsObserved (fold (step L) evs w) \<subseteq> statsObserved w"
proof (induction evs arbitrary: w)
  case Nil
  show ?case by simp
next
  case (Cons ev evs)
  have "statsObserved (step L ev w) \<subseteq> statsObserved w"
    by (auto simp: step_statsObserved split: event.splits)
  then show ?case
    using Cons.IH [of "step L ev w"] by auto
qed

lemma DOMContentLoaded_stats:
  "statsObserved (DOMContentLoaded p) =
     (case querySelector (revealOnScroll p) (sel_class ''stats'') of
        None \<Rightarrow> {} | Some s \<Rightarrow> {s})"
  by (simp add: DOMContentLoaded_def initLazyLoading_def initStatsObserver_def
      split: option.splits)

lemma stats_intersection_unobserved:
  "statsObserved w = {} \<Longrightarrow> stats_intersection es w = w"
  by (simp add: stats_intersection_def delivered_def stats_callback_def)

lemma step_intervals_unobserved:
  "statsObserved w = {} \<Longrightarrow> length (intervals (step L ev w)) = length (intervals w)"
  by (cases ev)
     (simp_all add: stats_intersection_unobserved image_intersection_def interval_event_def
        Let_def split: prod.splits)

lemma run_intervals_unobserved:
  "statsObserved w = {} \<Longrightarrow>
   length (intervals (fold (step L) evs w)) = length (intervals w)"
proof (induction evs arbitrary: w)
  case Nil
  show ?case by simp
next
  case (Cons ev evs)
  have "statsObserved (step L ev w) = {}"
    using Cons.prems statsObserved_shrinks [of L "[ev]" w] by simp
  then show ?case
    using Cons.IH [of "step L ev w"] Cons.prems by (simp add: step_intervals_unobserved)
qed

text \<open>
  The observer observes at most the one stats section. The first call of the callback
  in which an entry intersects (\<open>w1\<close> to \<open>w2\<close>) leaves nothing observed. From then on
  (\<open>w3\<close>, after any events) nothing is observed, the browser has no entry to deliver
  (\<open>es'\<close> is any later visibility change), a later call changes nothing, and no event
  creates an interval timer: no later call of the callback starts a counter.
\<close>

lemma stats_unobserved_for_good:
  assumes "w1 = fold (step L) evs1 (DOMContentLoaded p)"
    and "list_ex isIntersecting (delivered (statsObserved w1) es)"
    and "w2 = step L (StatsEntries es) w1"
    and "w3 = fold (step L) evs2 w2"
  shows "statsObserved w2 = {} \<and> statsObserved w3 = {} \<and>
         delivered (statsObserved w3) es' = [] \<and>
         step L (StatsEntries es') w3 = w3 \<and>
         length (intervals w3) = length (intervals w2)"
proof -
  obtain e where e: "e \<in> set es" "target e \<in> statsObserved w1" "isIntersecting e"
    using assms(2) by (auto simp: delivered_def list_ex_iff)
  have "statsObserved w1 \<subseteq> statsObserved (DOMContentLoaded p)"
    using assms(1) by (simp add: statsObserved_shrinks)
  then have one: "statsObserved w1 \<subseteq> {target e}"
    using e(2) by (auto simp: DOMContentLoaded_stats split: option.splits)
  have "target e \<notin> statsObserved w2"
    using e assms(3) step_statsObserved [of L "StatsEntries es" w1]
    by (auto simp: delivered_def)
  moreover have "statsObserved w2 \<subseteq> statsObserved w1"
    using assms(3) statsObserved_shrinks [of L "[StatsEntries es]" w1] by simp
  ultimately have o2: "statsObserved w2 = {}"
    using one by auto
  then have o3: "statsObserved w3 = {}"
    using assms(4) statsObserved_shrinks [of L evs2 w2] by simp
  have "length (intervals w3) = length (intervals w2)"
    using o2 assms(4) by (simp add: run_intervals_unobserved)
  then show ?thesis
    using o2 o3 by (simp add: stats_intersection_unobserved delivered_def)
qed

lemma stats_unobserved_for_good_example:
  "list_ex isIntersecting
     (delivered (statsObserved (fold (step plain) [ScrollReveal] world_stats)) stats_visible) \<and>
   statsObserved (step plain (StatsEntries stats_visible)
     (fold (step plain) [ScrollReveal] world_stats)) = {} \<and>
   length (intervals (fold (step plain) [StatsEntries stats_visible, Interval 0]
     (step plain (StatsEntries stats_visible)
       (fold (step plain) [ScrollReveal] world_stats)))) =
   length (intervals (step plain (StatsEntries stats_visible)
     (fold (step plain) [ScrollReveal] world_stats)))"
proof -
  have a: "list_ex isIntersecting
     (delivered (statsObserved (fold (step plain) [ScrollReveal] world_stats)) stats_visible)"
    by code_simp
  have b: "fold (step plain) [ScrollReveal] world_stats
      = fold (step plain) [ScrollReveal] (DOMContentLoaded page_stats)"
    by (simp add: world_stats_def)
  show ?thesis
    using stats_unobserved_for_good [OF b a refl refl, of
        "[StatsEntries stats_visible, Interval 0]"] a
    by simp
qed

section \<open>Debounce: one execution per burst\<close>

lemma advance_not_due:
  assumes "pending d = [(h, due, a)]" and "now < due"
  shows "advance now d = d"
  using assms by (simp add: advance_def fire_if_due_def)

lemma advance_due:
  assumes "pending d = [(h, due, a)]" and "timeout d = Some h" and "due \<le> now"
  shows "advance now d = d\<lparr>pending := [], executed := executed d @ [(due, a)]\<rparr>"
  using assms by (simp add: advance_def fire_if_due_def later_def clearTimeout_def)

lemma call_at_first:
  "call_at wait c debounce =
     \<lparr>timeout = Some 1, pending = [(1, fst c + wait, snd c)], next_handle = 2, executed = []\<rparr>"
  by (simp add: call_at_def advance_def debounce_def executedFunction_def clearTimeout_def Let_def)

lemma call_at_in_burst:
  assumes "pending d = [(h, due, a)]" and "timeout d = Some h" and "fst c < due"
  shows "pending (call_at wait c d) = [(next_handle d, fst c + wait, snd c)] \<and>
         timeout (call_at wait c d) = Some (next_handle d) \<and>
         executed (call_at wait c d) = executed d"
  using assms
  by (simp add: call_at_def advance_not_due [OF assms(1,3)] executedFunction_def clearTimeout_def
      Let_def)

lemma burst_pending:
  assumes "burst wait (c # cs)" and "pending d = [(h, fst c + wait, snd c)]"
    and "timeout d = Some h"
  shows "\<exists>h'. pending (fold (call_at wait) cs d) =
                 [(h', fst (last (c # cs)) + wait, snd (last (c # cs)))] \<and>
              timeout (fold (call_at wait) cs d) = Some h' \<and>
              executed (fold (call_at wait) cs d) = executed d"
  using assms
proof (induction cs arbitrary: c d h)
  case Nil
  then show ?case by simp
next
  case (Cons c' cs)
  have lt: "fst c' < fst c + wait" and b: "burst wait (c' # cs)"
    using Cons.prems(1) by simp_all
  note step = call_at_in_burst [OF Cons.prems(2,3) lt, of wait]
  obtain h' where
    "pending (fold (call_at wait) cs (call_at wait c' d)) =
       [(h', fst (last (c' # cs)) + wait, snd (last (c' # cs)))]"
    "timeout (fold (call_at wait) cs (call_at wait c' d)) = Some h'"
    "executed (fold (call_at wait) cs (call_at wait c' d)) = executed (call_at wait c' d)"
    using Cons.IH [OF b, of "call_at wait c' d" "next_handle d"] step by auto
  then show ?case
    using step by simp
qed









text \<open>A burst on its own, from the first call to the end of time.\<close>

lemma debounce_single_burst:
  assumes "calls \<noteq> []" and "burst wait calls"
  shows "executed (run_calls wait calls) = [(fst (last calls) + wait, snd (last calls))]"
proof -
  obtain c cs where calls: "calls = c # cs"
    using assms(1) by (cases calls) auto
  let ?d1 = "call_at wait c debounce"
  have p1: "pending ?d1 = [(1, fst c + wait, snd c)]" and t1: "timeout ?d1 = Some 1"
    and e1: "executed ?d1 = []"
    by (simp_all add: call_at_first)
  obtain h where h: "pending (fold (call_at wait) cs ?d1) =
        [(h, fst (last (c # cs)) + wait, snd (last (c # cs)))]"
      "timeout (fold (call_at wait) cs ?d1) = Some h"
      "executed (fold (call_at wait) cs ?d1) = []"
    using burst_pending [OF assms(2) [unfolded calls] p1 t1] e1 by auto
  have "executed (advance (fst (last (c # cs)) + wait) (fold (call_at wait) cs ?d1)) =
      [(fst (last (c # cs)) + wait, snd (last (c # cs)))]"
    using advance_due [OF h(1,2) order_refl] h(3) by simp
  then show ?thesis
    using h(1) by (simp add: run_calls_def calls Let_def)
qed

section \<open>Rounding to binary64\<close>

lemma two_powi_nat: "0 \<le> k \<Longrightarrow> (2::rat) powi k = of_int (2 ^ nat k)"
  by (simp add: power_int_nonneg_exp)

lemma two_powi_le: "j \<le> k \<Longrightarrow> (2::rat) powi j \<le> 2 powi k"
  by (rule power_int_increasing) simp_all

lemma two_powi_less: "j < k \<Longrightarrow> (2::rat) powi j < 2 powi k"
  by (rule power_int_strict_increasing) simp_all

lemma two_powi_pos [simp]: "0 < (2::rat) powi k"
  by simp

lemma two_powi_Suc: "(2::rat) powi (k + 1) = 2 * 2 powi k"
  by (simp add: power_int_add)

lemma two_powi_minus_le: "0 < x \<Longrightarrow> 1 / x \<le> 2 powi a \<Longrightarrow> 2 powi (- a) \<le> (x::rat)"
  by (simp add: power_int_minus_divide pos_divide_le_eq mult.commute)

lemma two_powi_minus_less: "0 < x \<Longrightarrow> 2 powi a < 1 / x \<Longrightarrow> (x::rat) < 2 powi (- a)"
  by (simp add: power_int_minus_divide pos_less_divide_eq mult.commute)

lemma ilog2_bounds:
  assumes "0 < x"
  shows "2 powi ilog2 x \<le> x \<and> x < 2 powi (ilog2 x + 1)"
proof (cases "1 \<le> x")
  case True
  define n where "n = \<lfloor>x\<rfloor>"
  have n: "1 \<le> n"
    using True by (simp add: n_def le_floor_iff)
  then have b: "2 ^ nat (bitlen n - 1) \<le> n" "n < 2 ^ nat (bitlen n)"
    using bitlen_bounds [of n] by simp_all
  have b1: "1 \<le> bitlen n"
    using n bitlen_eq_zero_iff [of n] bitlen_nonneg [of n] by linarith
  have il: "ilog2 x = bitlen n - 1"
    using True by (simp add: ilog2_def n_def)
  have "2 powi (bitlen n - 1) = (of_int (2 ^ nat (bitlen n - 1)) :: rat)"
    using b1 by (simp add: two_powi_nat)
  also have "\<dots> \<le> of_int n"
    using b(1) by (simp only: of_int_le_iff)
  also have "\<dots> \<le> x"
    using floor_correct [of x] by (simp add: n_def)
  finally have lower: "2 powi (bitlen n - 1) \<le> x" .
  have "x < of_int (n + 1)"
    using floor_correct [of x] by (simp add: n_def)
  also have "\<dots> \<le> (of_int (2 ^ nat (bitlen n)) :: rat)"
    using b(2) by (simp only: of_int_le_iff zless_imp_add1_zle)
  also have "\<dots> = 2 powi (bitlen n - 1 + 1)"
    using b1 by (simp add: two_powi_nat)
  finally have "x < 2 powi (bitlen n - 1 + 1)" .
  with lower il show ?thesis by simp
next
  case False
  define m where "m = \<lceil>1 / x\<rceil> - 1"
  have y1: "1 < 1 / x"
    using False assms by simp
  then have m: "1 \<le> m"
    by (simp add: m_def less_ceiling_iff)
  then have b: "2 ^ nat (bitlen m - 1) \<le> m" "m < 2 ^ nat (bitlen m)"
    using bitlen_bounds [of m] by simp_all
  have b1: "1 \<le> bitlen m"
    using m bitlen_eq_zero_iff [of m] bitlen_nonneg [of m] by linarith
  have il: "ilog2 x = - bitlen m"
    using False by (simp add: ilog2_def m_def)
  have "1 / x \<le> of_int (m + 1)"
    using ceiling_correct [of "1 / x"] by (simp add: m_def)
  also have "\<dots> \<le> (of_int (2 ^ nat (bitlen m)) :: rat)"
    using b(2) by (simp only: of_int_le_iff zless_imp_add1_zle)
  also have "\<dots> = 2 powi bitlen m"
    using b1 by (simp add: two_powi_nat)
  finally have "1 / x \<le> 2 powi bitlen m" .
  then have lower: "2 powi (- bitlen m) \<le> x"
    using assms by (simp add: two_powi_minus_le)
  have "(2::rat) powi (bitlen m - 1) = of_int (2 ^ nat (bitlen m - 1))"
    using b1 by (simp add: two_powi_nat)
  also have "\<dots> \<le> of_int m"
    using b(1) by (simp only: of_int_le_iff)
  also have "\<dots> < 1 / x"
    using ceiling_correct [of "1 / x"] by (simp add: m_def)
  finally have "2 powi (bitlen m - 1) < 1 / x" .
  then have "x < 2 powi (- (bitlen m - 1))"
    using assms by (rule two_powi_minus_less [rotated])
  then have "x < 2 powi (- bitlen m + 1)"
    by (simp add: algebra_simps)
  with lower il show ?thesis by simp
qed

lemma ilog2_ge: "0 < x \<Longrightarrow> 2 powi k \<le> x \<Longrightarrow> k \<le> ilog2 x"
proof (rule ccontr)
  assume x: "0 < x" "2 powi k \<le> x" and "\<not> k \<le> ilog2 x"
  then have "ilog2 x + 1 \<le> k" by simp
  then have "(2::rat) powi (ilog2 x + 1) \<le> 2 powi k"
    by (rule two_powi_le)
  then show False
    using ilog2_bounds [OF x(1)] x(2) by simp
qed

lemma ilog2_less: "0 < x \<Longrightarrow> x < 2 powi k \<Longrightarrow> ilog2 x < k"
proof (rule ccontr)
  assume x: "0 < x" "x < 2 powi k" and "\<not> ilog2 x < k"
  then have "k \<le> ilog2 x" by simp
  then have "(2::rat) powi k \<le> 2 powi ilog2 x"
    by (rule two_powi_le)
  then show False
    using ilog2_bounds [OF x(1)] x(2) by simp
qed

lemma ilog2_mono: "0 < x \<Longrightarrow> x \<le> y \<Longrightarrow> ilog2 x \<le> ilog2 y"
  using ilog2_bounds [of x] ilog2_ge [of y "ilog2 x"] by simp

lemma round_even_of_int [simp]: "round_even (of_int n) = n"
  by (simp add: round_even_def)

lemma round_even_range: "\<lfloor>r\<rfloor> \<le> round_even r \<and> round_even r \<le> \<lfloor>r\<rfloor> + 1"
  by (simp add: round_even_def Let_def)

lemma round_even_mono:
  assumes "r \<le> s"
  shows "round_even r \<le> round_even s"
proof (cases "\<lfloor>r\<rfloor> = \<lfloor>s\<rfloor>")
  case True
  have "r - of_int \<lfloor>r\<rfloor> \<le> s - of_int \<lfloor>s\<rfloor>"
    using assms True by simp
  then show ?thesis
    using True by (auto simp: round_even_def Let_def)
next
  case False
  have "\<lfloor>r\<rfloor> \<le> \<lfloor>s\<rfloor>"
    using assms by (rule floor_mono)
  then have "\<lfloor>r\<rfloor> + 1 \<le> \<lfloor>s\<rfloor>"
    using False by simp
  then show ?thesis
    using round_even_range [of r] round_even_range [of s] by linarith
qed

lemma round_even_le_int: "r \<le> of_int n \<Longrightarrow> round_even r \<le> n"
  using round_even_mono [of r "of_int n"] by simp

lemma round_even_ge_int: "of_int n \<le> r \<Longrightarrow> n \<le> round_even r"
  using round_even_mono [of "of_int n" r] by simp

lemma ulp_exp_minus [simp]: "ulp_exp (- x) = ulp_exp x"
  by (simp add: ulp_exp_def)

lemma ulp_exp_ge [simp]: "- 1074 \<le> ulp_exp x"
  by (simp add: ulp_exp_def)

lemma fl_0 [simp]: "fl 0 = 0"
  by (simp add: fl_def)

lemma fl_minus: "fl (- x) = - fl x"
  by (simp add: fl_def)

lemma fl_pos:
  "0 < x \<Longrightarrow> fl x = of_int (round_even (x / 2 powi ulp_exp x)) * 2 powi ulp_exp x"
  by (simp add: fl_def)

lemma fl_nonneg: "0 \<le> x \<Longrightarrow> 0 \<le> fl x"
proof (cases "x = 0")
  case True
  then show ?thesis by simp
next
  case False
  assume "0 \<le> x"
  with False have x: "0 < x" by simp
  have "(of_int 0 :: rat) \<le> x / 2 powi ulp_exp x"
    using x by simp
  then have "0 \<le> round_even (x / 2 powi ulp_exp x)"
    by (rule round_even_ge_int)
  then show ?thesis
    using x by (simp add: fl_pos)
qed

lemma fl_nonpos: "x \<le> 0 \<Longrightarrow> fl x \<le> 0"
  using fl_nonneg [of "- x"] by (simp add: fl_minus)

text \<open>Every \<open>m * 2^k\<close> with \<open>0 \<le> m \<le> 2^53\<close> and \<open>-1074 \<le> k\<close> is its own rounding.\<close>

lemma fl_exact_less:
  assumes "0 < m" and "m < 2 ^ 53" and "- 1074 \<le> k"
  shows "fl (of_int m * 2 powi k) = of_int m * 2 powi k"
proof -
  define x :: rat where "x = of_int m * 2 powi k"
  have x: "0 < x"
    using assms(1) by (simp add: x_def)
  have "of_int m < (2::rat) ^ 53"
    using assms(2) by (metis of_int_less_iff of_int_numeral of_int_power)
  then have "x < 2 powi 53 * 2 powi k"
    by (simp add: x_def)
  then have "x < 2 powi (53 + k)"
    by (simp add: power_int_add)
  then have "ilog2 x < 53 + k"
    using x by (rule ilog2_less [rotated])
  then have q: "ulp_exp x \<le> k"
    using assms(3) x by (simp add: ulp_exp_def)
  define d where "d = nat (k - ulp_exp x)"
  have k: "k = ulp_exp x + int d"
    using q by (simp add: d_def)
  have "(2::rat) powi k = 2 powi (ulp_exp x + int d)"
    using k by simp
  then have pk: "(2::rat) powi k = 2 powi ulp_exp x * 2 ^ d"
    by (simp add: power_int_add)
  have "(of_int (m * 2 ^ d) :: rat) * 2 powi ulp_exp x = of_int m * (2 powi ulp_exp x * 2 ^ d)"
    by (simp add: mult_ac)
  also have "\<dots> = of_int m * 2 powi k"
    by (simp only: pk)
  also have "\<dots> = x"
    by (simp add: x_def)
  finally have xq: "x = of_int (m * 2 ^ d) * 2 powi ulp_exp x"
    by (rule sym)
  have "x / 2 powi ulp_exp x = of_int (m * 2 ^ d) * 2 powi ulp_exp x / 2 powi ulp_exp x"
    using xq by (rule arg_cong [where f = "\<lambda>t. t / 2 powi ulp_exp x"])
  also have "\<dots> = of_int (m * 2 ^ d)"
    by simp
  finally have "round_even (x / 2 powi ulp_exp x) = m * 2 ^ d"
    by (simp only: round_even_of_int)
  then have "fl x = of_int (m * 2 ^ d) * 2 powi ulp_exp x"
    using x by (simp only: fl_pos)
  also have "\<dots> = x"
    using xq by simp
  finally show ?thesis
    by (simp add: x_def)
qed

lemma fl_exact:
  assumes "0 \<le> m" and "m \<le> 2 ^ 53" and "- 1074 \<le> k"
  shows "fl (of_int m * 2 powi k) = of_int m * 2 powi k"
proof -
  consider "m = 0" | "0 < m" "m < 2 ^ 53" | "m = 2 ^ 53"
    using assms(1,2) by linarith
  then show ?thesis
  proof cases
    case 1
    then show ?thesis by simp
  next
    case 2
    then show ?thesis using assms(3) by (rule fl_exact_less)
  next
    case 3
    have e: "(9007199254740992::rat) * 2 powi k = 4503599627370496 * 2 powi (k + 1)"
      by (simp add: two_powi_Suc)
    have "fl (of_int (2 ^ 52) * 2 powi (k + 1)) = of_int (2 ^ 52) * 2 powi (k + 1)"
      using assms(3) by (intro fl_exact_less) simp_all
    then show ?thesis
      unfolding 3 by (simp add: e)
  qed
qed

lemma fl_form:
  assumes "0 < x"
  shows "\<exists>m. 0 \<le> m \<and> m \<le> 2 ^ 53 \<and> fl x = of_int m * 2 powi ulp_exp x"
proof -
  let ?q = "ulp_exp x"
  let ?m = "round_even (x / 2 powi ?q)"
  have "(of_int 0 :: rat) \<le> x / 2 powi ?q"
    using assms by simp
  then have m0: "0 \<le> ?m"
    by (rule round_even_ge_int)
  have "ilog2 \<bar>x\<bar> - 52 \<le> ?q"
    by (simp add: ulp_exp_def)
  then have "ilog2 x + 1 \<le> 53 + ?q"
    using assms by simp
  then have "(2::rat) powi (ilog2 x + 1) \<le> 2 powi (53 + ?q)"
    by (rule two_powi_le)
  then have "x < 2 powi (53 + ?q)"
    using ilog2_bounds [OF assms] by simp
  then have "x < 2 ^ 53 * 2 powi ?q"
    by (simp add: power_int_add)
  then have "x / 2 powi ?q < 2 ^ 53"
    by (simp add: pos_divide_less_eq)
  then have "x / 2 powi ?q \<le> of_int (2 ^ 53)"
    by simp
  then have "?m \<le> 2 ^ 53"
    by (rule round_even_le_int)
  with m0 show ?thesis
    using assms by (auto simp: fl_pos)
qed

lemma fl_idem_pos: "0 < x \<Longrightarrow> fl (fl x) = fl x"
  using fl_form [of x] fl_exact [OF _ _ ulp_exp_ge] by auto

lemma fl_idem [simp]: "fl (fl x) = fl x"
proof -
  consider "x = 0" | "0 < x" | "x < 0" by linarith
  then show ?thesis
  proof cases
    case 1
    then show ?thesis by simp
  next
    case 2
    then show ?thesis by (rule fl_idem_pos)
  next
    case 3
    then have "fl (fl (- x)) = fl (- x)"
      by (intro fl_idem_pos) simp
    then show ?thesis
      by (simp add: fl_minus)
  qed
qed

lemma ulp_exp_pos: "0 < x \<Longrightarrow> ulp_exp x = max (ilog2 x - 52) (- 1074)"
  by (simp add: ulp_exp_def)

lemma fl_mono_pos:
  assumes "0 < x" and "x \<le> y"
  shows "fl x \<le> fl y"
proof -
  have y: "0 < y"
    using assms by simp
  let ?qx = "ulp_exp x" and ?qy = "ulp_exp y"
  have q: "?qx \<le> ?qy"
    using ilog2_mono [OF assms] assms(1) y by (simp add: ulp_exp_pos)
  show ?thesis
  proof (cases "?qx = ?qy")
    case True
    have "x / 2 powi ?qy \<le> y / 2 powi ?qy"
      using assms(2) by (simp add: divide_right_mono)
    then have "round_even (x / 2 powi ?qy) \<le> round_even (y / 2 powi ?qy)"
      by (rule round_even_mono)
    then have "(of_int (round_even (x / 2 powi ?qy)) :: rat) * 2 powi ?qy
        \<le> of_int (round_even (y / 2 powi ?qy)) * 2 powi ?qy"
      by (simp add: mult_right_mono)
    then show ?thesis
      using assms(1) y True by (simp add: fl_pos)
  next
    case False
    then have lt: "?qx < ?qy"
      using q by simp
    moreover have "- 1074 \<le> ?qx"
      by simp
    ultimately have "- 1074 < ?qy"
      by linarith
    then have qy: "?qy = ilog2 y - 52"
      using y by (simp add: ulp_exp_pos max_def split: if_splits)
    have "ilog2 x - 52 \<le> ?qx"
      using assms(1) by (simp add: ulp_exp_pos)
    then have ex: "ilog2 x + 1 \<le> ?qy + 52"
      using lt by simp
    text \<open>\<open>y\<close> rounds to at least \<open>2^(qy + 52)\<close>.\<close>
    have "(2::rat) powi (?qy + 52) \<le> y"
      using ilog2_bounds [OF y] qy by simp
    then have "(2::rat) ^ 52 * 2 powi ?qy \<le> y"
      by (simp add: power_int_add mult.commute)
    then have "(of_int (2 ^ 52) :: rat) \<le> y / 2 powi ?qy"
      by (simp add: pos_le_divide_eq)
    then have "2 ^ 52 \<le> round_even (y / 2 powi ?qy)"
      by (rule round_even_ge_int)
    then have "(of_int (2 ^ 52) :: rat) \<le> of_int (round_even (y / 2 powi ?qy))"
      by (simp only: of_int_le_iff)
    then have "(of_int (2 ^ 52) :: rat) * 2 powi ?qy
        \<le> of_int (round_even (y / 2 powi ?qy)) * 2 powi ?qy"
      by (simp add: mult_right_mono)
    then have up: "(2::rat) powi (?qy + 52) \<le> fl y"
      using y by (simp add: fl_pos power_int_add mult.commute)
    text \<open>\<open>x\<close> rounds to at most \<open>2^(qy + 52)\<close>.\<close>
    define d where "d = nat (?qy + 52 - ?qx)"
    have d: "?qy + 52 = ?qx + int d"
      using lt by (simp add: d_def)
    have "(2::rat) powi (?qy + 52) = 2 powi (?qx + int d)"
      using d by simp
    then have pd: "(2::rat) powi (?qy + 52) = 2 ^ d * 2 powi ?qx"
      by (simp add: power_int_add mult.commute)
    have "x < 2 powi (ilog2 x + 1)"
      using ilog2_bounds [OF assms(1)] by simp
    also have "\<dots> \<le> 2 powi (?qy + 52)"
      using ex by (rule two_powi_le)
    finally have "x < 2 ^ d * 2 powi ?qx"
      by (simp add: pd)
    then have "x / 2 powi ?qx \<le> of_int (2 ^ d)"
      by (simp add: pos_divide_le_eq)
    then have "round_even (x / 2 powi ?qx) \<le> 2 ^ d"
      by (rule round_even_le_int)
    then have "(of_int (round_even (x / 2 powi ?qx)) :: rat) \<le> of_int (2 ^ d)"
      by (simp only: of_int_le_iff)
    then have "(of_int (round_even (x / 2 powi ?qx)) :: rat) * 2 powi ?qx
        \<le> of_int (2 ^ d) * 2 powi ?qx"
      by (simp add: mult_right_mono)
    then have "fl x \<le> 2 powi (?qy + 52)"
      using assms(1) by (simp add: fl_pos pd)
    with up show ?thesis by simp
  qed
qed

lemma fl_mono:
  assumes "x \<le> y"
  shows "fl x \<le> fl y"
proof -
  consider "0 < x" | "x \<le> 0" "0 \<le> y" | "y < 0"
    using assms by linarith
  then show ?thesis
  proof cases
    case 1
    then show ?thesis using assms by (rule fl_mono_pos)
  next
    case 2
    then show ?thesis
      using fl_nonpos [of x] fl_nonneg [of y] by simp
  next
    case 3
    then have "fl (- y) \<le> fl (- x)"
      using assms by (intro fl_mono_pos) simp_all
    then show ?thesis
      by (simp add: fl_minus)
  qed
qed

text \<open>Integers below \<open>2^53\<close> are binary64 values.\<close>

lemma fl_of_int: "\<bar>n\<bar> \<le> 2 ^ 53 \<Longrightarrow> fl (of_int n) = of_int n"
proof (cases "0 \<le> n")
  case True
  assume "\<bar>n\<bar> \<le> 2 ^ 53"
  then show ?thesis
    using True fl_exact [of n 0] by simp
next
  case False
  assume "\<bar>n\<bar> \<le> 2 ^ 53"
  then have "fl (of_int (- n)) = of_int (- n)"
    using False fl_exact [of "- n" 0] by simp
  then show ?thesis
    by (simp add: fl_minus)
qed

lemma fl_numeral [simp]:
  "(numeral k :: int) \<le> 2 ^ 53 \<Longrightarrow> fl (numeral k) = numeral k"
  using fl_of_int [of "numeral k"] by simp

lemma round_num_Fin:
  "- (2 ^ 1024) < fl x \<Longrightarrow> fl x < 2 ^ 1024 \<Longrightarrow> round_num x = Fin (fl x)"
  by (simp add: round_num_def Let_def)

lemma round_num_numeral [simp]:
  "(numeral k :: int) \<le> 2 ^ 53 \<Longrightarrow> round_num (numeral k) = Fin (numeral k)"
proof -
  assume k: "(numeral k :: int) \<le> 2 ^ 53"
  then have "(of_int (numeral k) :: rat) \<le> of_int (2 ^ 53)"
    by (simp only: of_int_le_iff)
  then have "(numeral k :: rat) \<le> 2 ^ 53"
    by simp
  moreover have "(2::rat) ^ 53 < 2 ^ 1024"
    by simp
  ultimately have "(numeral k :: rat) < 2 ^ 1024"
    by (rule le_less_trans)
  moreover have "- ((2::rat) ^ 1024) < numeral k"
    by (rule less_trans [of _ 0]) simp_all
  ultimately show ?thesis
    using k by (simp add: round_num_Fin)
qed

lemma round_num_0 [simp]: "round_num 0 = Fin 0"
  by (simp add: round_num_def)

section \<open>The counter: what one tick does\<close>

lemma frames_125 [simp]: "js_div (Fin 2000) (Fin 16) = Fin 125"
proof -
  have "(2000 :: rat) / 16 = 125" by simp
  then show ?thesis by simp
qed

lemma is_double_fl: "is_double t \<Longrightarrow> fl t = t"
  by (simp add: is_double_def)

lemma increment_range:
  assumes "is_double t" and "0 < t"
  shows "0 \<le> fl (t / 125) \<and> fl (t / 125) \<le> t"
proof -
  have "fl (t / 125) \<le> fl t"
    using assms(2) by (intro fl_mono) simp
  moreover have "0 \<le> fl (t / 125)"
    using assms(2) by (intro fl_nonneg) simp
  ultimately show ?thesis
    using assms(1) by (simp add: is_double_fl)
qed

lemma increment_Fin:
  assumes "is_double t" and "0 < t"
  shows "round_num (t / 125) = Fin (fl (t / 125))"
proof -
  have "\<bar>t\<bar> < 2 ^ 1024"
    using assms(1) by (simp add: is_double_def)
  then have "fl (t / 125) < 2 ^ 1024" "- (2 ^ 1024) < fl (t / 125)"
    using increment_range [OF assms] by linarith+
  then show ?thesis
    by (simp add: round_num_Fin)
qed

lemma animateCounter_positive:
  assumes "is_double t" and "0 < t"
  shows "animateCounter el (Fin t) =
     \<lparr>c_element = el, c_target = Fin t, c_increment = Fin (fl (t / 125)),
      c_current = Fin 0, cleared = False\<rparr>"
  by (simp add: animateCounter_def Let_def increment_Fin [OF assms])

text \<open>The state of a counter with a positive target while it runs.\<close>

lemma add_rounds_up:
  assumes "fl x = x" and "0 \<le> i"
  shows "x \<le> fl (x + i)"
proof -
  have "fl x \<le> fl (x + i)"
    using assms(2) by (intro fl_mono) simp
  then show ?thesis
    using assms(1) by simp
qed

lemma js_add_cases:
  assumes "0 \<le> x" and "0 \<le> i"
  shows "js_add (Fin x) (Fin i) = PInf \<and> 2 ^ 1024 \<le> fl (x + i) \<or>
         js_add (Fin x) (Fin i) = Fin (fl (x + i)) \<and> fl (x + i) < 2 ^ 1024"
proof -
  have "0 \<le> fl (x + i)"
    using assms by (intro fl_nonneg) simp
  then have "\<not> fl (x + i) \<le> - (2 ^ 1024)"
    by (simp add: not_le less_le_trans [of _ 0])
  then show ?thesis
    by (auto simp: round_num_def Let_def)
qed

lemma tick_positive:
  assumes "is_double t" and "0 \<le> i" and "fl x = x" and "0 \<le> x" and "x < t"
    and c: "c = \<lparr>c_element = el, c_target = Fin t, c_increment = Fin i,
                 c_current = Fin x, cleared = False\<rparr>"
  shows "\<exists>c' p'. interval_fires L (c, p) = (c', p') \<and>
           p' = modify el (set_text (L (displayed c'))) p \<and>
           c_current c' = js_add (c_current c) (c_increment c) \<and>
           c_element c' = el \<and> c_target c' = Fin t \<and> c_increment c' = Fin i \<and>
           js_ge (displayed c') (displayed c) \<and> js_ge (Fin t) (displayed c') \<and>
           (cleared c' \<or> (\<exists>x'. c_current c' = Fin x' \<and> fl x' = x' \<and> x \<le> x' \<and> x' < t))"
proof -
  have up: "x \<le> fl (x + i)"
    using assms(3,2) by (rule add_rounds_up)
  have fx: "of_int \<lfloor>x\<rfloor> < t"
    using assms(5) floor_correct [of x] by linarith
  consider (inf) "js_add (Fin x) (Fin i) = PInf"
    | (fin) "js_add (Fin x) (Fin i) = Fin (fl (x + i))"
    using js_add_cases [OF assms(4,2)] by blast
  then show ?thesis
  proof cases
    case inf
    then show ?thesis
      using fx by (simp add: c interval_fires_def tick_def Let_def displayed_def)
  next
    case fin
    show ?thesis
    proof (cases "t \<le> fl (x + i)")
      case True
      then show ?thesis
        using fin fx by (simp add: c interval_fires_def tick_def Let_def displayed_def)
    next
      case False
      have "\<lfloor>x\<rfloor> \<le> \<lfloor>fl (x + i)\<rfloor>"
        using up by (rule floor_mono)
      moreover have "of_int \<lfloor>fl (x + i)\<rfloor> \<le> t"
        using False floor_correct [of "fl (x + i)"] by linarith
      ultimately show ?thesis
        using fin False up
        by (simp add: c interval_fires_def tick_def Let_def displayed_def)
    qed
  qed
qed

section \<open>The counter: a run with a positive target\<close>

lemma counter_run_0 [simp]: "counter_run L el T p 0 = (animateCounter el T, p)"
  by (simp add: counter_run_def)

lemma counter_run_Suc:
  "counter_run L el T p (Suc n) = interval_fires L (counter_run L el T p n)"
  by (simp add: counter_run_def)

lemma interval_fires_cleared: "cleared c \<Longrightarrow> interval_fires L (c, p) = (c, p)"
  by (simp add: interval_fires_def)

lemma interval_fires_length [simp]:
  "length (elements (snd (interval_fires L cp))) = length (elements (snd cp))"
  by (cases cp) (simp add: interval_fires_def tick_def Let_def)

lemma counter_run_length [simp]:
  "length (elements (snd (counter_run L el T p n))) = length (elements p)"
  by (induction n) (simp_all add: counter_run_Suc)

lemma positive_run_invariant:
  assumes "is_double t" and "0 < t"
  shows "c_element (fst (counter_run L el (Fin t) p n)) = el \<and>
         c_target (fst (counter_run L el (Fin t) p n)) = Fin t \<and>
         c_increment (fst (counter_run L el (Fin t) p n)) = Fin (fl (t / 125)) \<and>
         (cleared (fst (counter_run L el (Fin t) p n)) \<or>
          (\<exists>x. c_current (fst (counter_run L el (Fin t) p n)) = Fin x \<and> fl x = x \<and>
               0 \<le> x \<and> x < t))"
proof (induction n)
  case 0
  show ?case
    using assms by (simp add: animateCounter_positive)
next
  case (Suc n)
  obtain c q where cq: "counter_run L el (Fin t) p n = (c, q)"
    by (cases "counter_run L el (Fin t) p n")
  show ?case
  proof (cases "cleared c")
    case True
    then show ?thesis
      using Suc.IH by (simp add: counter_run_Suc cq interval_fires_cleared)
  next
    case False
    then obtain x where x: "c_current c = Fin x" "fl x = x" "0 \<le> x" "x < t"
      using Suc.IH by (auto simp: cq)
    have c: "c = \<lparr>c_element = el, c_target = Fin t, c_increment = Fin (fl (t / 125)),
                   c_current = Fin x, cleared = False\<rparr>"
      using Suc.IH False x(1) by (cases c) (simp add: cq)
    have i: "0 \<le> fl (t / 125)"
      using increment_range [OF assms] by simp
    obtain c' p' where step: "interval_fires L (c, q) = (c', p')"
      "c_element c' = el" "c_target c' = Fin t" "c_increment c' = Fin (fl (t / 125))"
      "cleared c' \<or> (\<exists>x'. c_current c' = Fin x' \<and> fl x' = x' \<and> x \<le> x' \<and> x' < t)"
      using tick_positive [OF assms(1) i x(2,3,4) c, of L q] by blast
    then show ?thesis
      using x(3) by (auto simp: counter_run_Suc cq)
  qed
qed

lemma increment_positive:
  assumes "2 powi (- 1022) \<le> t"
  shows "0 < fl (t / 125)"
proof -
  have "fl (of_int 1 * 2 powi (- 1029)) = of_int 1 * 2 powi (- 1029)"
    by (rule fl_exact) simp_all
  then have e: "fl (2 powi (- 1029)) = 2 powi (- 1029)"
    by simp
  have "(2::rat) powi (- 1029) = 2 powi (- 1022) * 2 powi (- 7)"
    by (simp add: power_int_add [symmetric])
  also have "\<dots> \<le> t * 2 powi (- 7)"
    using assms by (simp add: mult_right_mono)
  also have "\<dots> = t / 128"
    by (simp add: power_int_minus_divide)
  also have "\<dots> \<le> t / 125"
  proof -
    have "0 \<le> t"
      using assms by (rule order_trans [rotated]) simp
    then show ?thesis
      by (simp add: field_simps)
  qed
  finally have "fl (2 powi (- 1029)) \<le> fl (t / 125)"
    by (rule fl_mono)
  then show ?thesis
    using e by (simp add: less_le_trans [of 0 "2 powi (- 1029)"])
qed

lemma tiny_increment:
  assumes "0 < t" and "t \<le> 2 powi (- 1074)"
  shows "fl (t / 125) = 0"
proof -
  let ?x = "t / 125"
  have pos: "0 < ?x"
    using assms(1) by simp
  have "?x < t"
    using assms(1) by simp
  then have lt: "?x < 2 powi (- 1074)"
    using assms(2) by (rule less_le_trans)
  then have "ilog2 ?x < - 1074"
    using pos by (rule ilog2_less [rotated])
  then have q: "ulp_exp ?x = - 1074"
    using pos by (simp add: ulp_exp_pos)
  define z where "z = ?x / 2 powi (- 1074)"
  have "t / 2 powi (- 1074) \<le> 1"
    using assms(2) by (simp only: pos_divide_le_eq two_powi_pos mult_1)
  then have z: "0 \<le> z" "z < 1 / 2"
    using assms(1) by (simp_all add: z_def)
  then have "\<lfloor>z\<rfloor> = 0"
    by (simp add: floor_eq_iff)
  then have "round_even z = 0"
    using z by (simp add: round_even_def)
  then have "round_even (?x / 2 powi ulp_exp ?x) = 0"
    by (simp only: q z_def)
  then show ?thesis
    by (simp only: fl_pos [OF pos] of_int_0 mult_zero_left)
qed

lemma min_value_double: "is_double min_value \<and> 0 < min_value"
proof -
  have "fl (of_int 1 * 2 powi (- 1074)) = of_int 1 * 2 powi (- 1074)"
    by (rule fl_exact) simp_all
  moreover have "(2::rat) powi (- 1074) < 2 powi 0"
    by (rule two_powi_less) simp
  moreover have "(1::rat) < 2 ^ 1024"
    by simp
  ultimately show ?thesis
    by (simp add: is_double_def min_value_def)
qed

text \<open>
  C9, as stated, fails in one part: the increment need not be positive. For the
  smallest positive number, \<open>2^(-1074)\<close>, the quotient \<open>target / 125\<close> rounds to zero,
  and the accumulator stays where it is.
\<close>

theorem tiny_target_zero_increment:
  "is_double min_value \<and> 0 < min_value \<and>
   c_increment (animateCounter 0 (Fin min_value)) = Fin 0 \<and>
   c_current (fst (counter_run plain 0 (Fin min_value) page_stats 1)) = Fin 0 \<and>
   \<not> cleared (fst (counter_run plain 0 (Fin min_value) page_stats 1))"
proof -
  have d: "is_double min_value" and pos: "0 < min_value"
    using min_value_double by simp_all
  have z: "fl (min_value / 125) = 0"
    using pos by (rule tiny_increment) (simp add: min_value_def)
  have inc: "animateCounter 0 (Fin min_value) =
     \<lparr>c_element = 0, c_target = Fin min_value, c_increment = Fin 0,
      c_current = Fin 0, cleared = False\<rparr>"
    using animateCounter_positive [OF d pos, of 0] z by simp
  show ?thesis
    using d pos inc
    by (simp add: counter_run_def interval_fires_def tick_def Let_def)
qed

text \<open>
  C9, amended: during a run of \<open>animateCounter\<close> with a positive finite target, the
  increment is the rounded quotient \<open>target / (2000 / 16)\<close>, which is not negative, and
  is positive for every target of at least \<open>2^(-1022)\<close>; each tick of the running
  timer adds the increment to the accumulator and writes the floor of the accumulator,
  or the target on the final tick; the numbers written never decrease and never exceed
  the target.
\<close>

theorem counter_displays_nondecreasing:
  assumes "is_double t" and "0 < t" and "el < length (elements p)"
    and "cn = fst (counter_run L el (Fin t) p n)"
    and "cn' = fst (counter_run L el (Fin t) p (Suc n))"
  shows "(\<exists>i. js_div (Fin t) (js_div (Fin 2000) (Fin 16)) = Fin i \<and> c_increment cn = Fin i \<and>
              0 \<le> i \<and> (2 powi (- 1022) \<le> t \<longrightarrow> 0 < i)) \<and>
         (\<not> cleared cn \<longrightarrow>
            c_current cn' = js_add (c_current cn) (c_increment cn) \<and>
            textContent (elem (snd (counter_run L el (Fin t) p (Suc n))) el)
              = L (displayed cn')) \<and>
         js_ge (displayed cn') (displayed cn) \<and>
         js_ge (Fin t) (displayed cn')"
proof -
  obtain q where cq: "counter_run L el (Fin t) p n = (cn, q)"
    using assms(4) by (cases "counter_run L el (Fin t) p n") simp
  note inv = positive_run_invariant [OF assms(1,2), of L el p n, unfolded cq fst_conv]
  have i: "0 \<le> fl (t / 125)"
    using increment_range [OF assms(1,2)] by simp
  have inc: "\<exists>i. js_div (Fin t) (js_div (Fin 2000) (Fin 16)) = Fin i \<and> c_increment cn = Fin i \<and>
              0 \<le> i \<and> (2 powi (- 1022) \<le> t \<longrightarrow> 0 < i)"
    using inv i increment_Fin [OF assms(1,2)] increment_positive [of t] by simp
  have len: "el < length (elements q)"
    using assms(3) counter_run_length [of L el "Fin t" p n] by (simp add: cq)
  show ?thesis
  proof (cases "cleared cn")
    case True
    then have "cn' = cn"
      using assms(5) by (simp add: counter_run_Suc cq interval_fires_cleared)
    then show ?thesis
      using True inc inv by (simp add: displayed_def)
  next
    case False
    then obtain x where x: "c_current cn = Fin x" "fl x = x" "0 \<le> x" "x < t"
      using inv by auto
    have c: "cn = \<lparr>c_element = el, c_target = Fin t, c_increment = Fin (fl (t / 125)),
                    c_current = Fin x, cleared = False\<rparr>"
      using inv False x(1) by (cases cn) simp
    obtain c' p' where step: "interval_fires L (cn, q) = (c', p')"
      "p' = modify el (set_text (L (displayed c'))) q"
      "c_current c' = js_add (c_current cn) (c_increment cn)"
      "js_ge (displayed c') (displayed cn)" "js_ge (Fin t) (displayed c')"
      using tick_positive [OF assms(1) i x(2,3,4) c, of L q] by blast
    have "cn' = c'"
      using assms(5) step(1) by (simp add: counter_run_Suc cq)
    moreover have "textContent (elem p' el) = L (displayed c')"
      using len by (simp add: step(2) elem_modify set_text_def)
    ultimately show ?thesis
      using inc step by (simp add: counter_run_Suc cq)
  qed
qed

theorem counter_displays_nondecreasing_witness:
  "is_double 250 \<and> 1 < length (elements page_stats) \<and>
   c_increment (fst (counter_run plain 1 (Fin 250) page_stats 2)) = Fin 2 \<and>
   js_ge (displayed (fst (counter_run plain 1 (Fin 250) page_stats 3)))
         (displayed (fst (counter_run plain 1 (Fin 250) page_stats 2))) \<and>
   js_ge (Fin 250) (displayed (fst (counter_run plain 1 (Fin 250) page_stats 3)))"
proof -
  have a: "is_double 250"
    by (simp add: is_double_def)
  have b: "(0::rat) < 250"
    by simp
  have c: "1 < length (elements page_stats)"
    by (simp add: page_stats_def)
  have d: "js_div (Fin 250) (js_div (Fin 2000) (Fin 16)) = Fin 2"
    by simp
  show ?thesis
    using counter_displays_nondecreasing [OF a b c refl refl, of plain 2] a c d
    by auto
qed

section \<open>The counter: does it reach its target?\<close>

lemma counter_run_target [simp]:
  "c_target (fst (counter_run L el T p n)) = T"
  "c_element (fst (counter_run L el T p n)) = el"
proof (induction n)
  case 0
  show "c_target (fst (counter_run L el T p 0)) = T"
    and "c_element (fst (counter_run L el T p 0)) = el"
    by (simp_all add: animateCounter_def Let_def)
next
  case (Suc n)
  show "c_target (fst (counter_run L el T p (Suc n))) = T"
    and "c_element (fst (counter_run L el T p (Suc n))) = el"
    using Suc
    by (cases "counter_run L el T p n";
        simp add: counter_run_Suc interval_fires_def tick_def Let_def)+
qed

lemma cleared_stays:
  "cleared (fst (counter_run L el T p n)) \<Longrightarrow>
   counter_run L el T p (n + k) = counter_run L el T p n"
proof (induction k)
  case 0
  show ?case by simp
next
  case (Suc k)
  then show ?case
    by (cases "counter_run L el T p n") (simp add: counter_run_Suc interval_fires_cleared)
qed

lemma cleared_text:
  assumes "el < length (elements p)"
  shows "cleared (fst (counter_run L el T p n)) \<Longrightarrow>
         textContent (elem (snd (counter_run L el T p n)) el) = L T"
proof (induction n)
  case 0
  then show ?case by (simp add: animateCounter_def Let_def)
next
  case (Suc n)
  obtain c q where cq: "counter_run L el T p n = (c, q)"
    by (cases "counter_run L el T p n")
  have c: "c_target c = T" "c_element c = el"
    using counter_run_target [of L el T p n] by (simp_all add: cq)
  have len: "el < length (elements q)"
    using assms counter_run_length [of L el T p n] by (simp add: cq)
  show ?case
  proof (cases "cleared c")
    case True
    then show ?thesis
      using Suc.IH by (simp add: counter_run_Suc cq interval_fires_cleared)
  next
    case False
    then show ?thesis
      using Suc.prems c len
      by (simp add: counter_run_Suc cq interval_fires_def tick_def Let_def elem_modify
          set_text_def split: if_splits)
  qed
qed

text \<open>With the target \<open>NaN\<close> the timer is never cleared, and every tick writes \<open>NaN\<close>.\<close>

lemma NaN_run:
  "\<not> cleared (fst (counter_run L el NaN p n)) \<and>
   c_increment (fst (counter_run L el NaN p n)) = NaN \<and>
   (0 < n \<longrightarrow> c_current (fst (counter_run L el NaN p n)) = NaN \<and>
      (el < length (elements p) \<longrightarrow>
         textContent (elem (snd (counter_run L el NaN p n)) el) = L NaN))"
proof (induction n)
  case 0
  show ?case by (simp add: animateCounter_def Let_def)
next
  case (Suc n)
  obtain c q where cq: "counter_run L el NaN p n = (c, q)"
    by (cases "counter_run L el NaN p n")
  have c: "c_target c = NaN" "c_element c = el"
    using counter_run_target [of L el NaN p n] by (simp_all add: cq)
  have len: "length (elements q) = length (elements p)"
    using counter_run_length [of L el NaN p n] by (simp add: cq)
  have "js_add (c_current c) NaN = NaN"
    by (cases "c_current c") simp_all
  then show ?case
    using Suc.IH c len
    by (simp add: counter_run_Suc cq interval_fires_def tick_def Let_def elem_modify
        set_text_def)
qed

text \<open>A target that is zero, negative or infinite is reached by the first tick.\<close>

lemma nonpositive_first_tick:
  assumes "is_double t" and "t \<le> 0"
  shows "cleared (fst (counter_run L el (Fin t) p 1))"
proof -
  have "t / 125 \<le> 0" and "t \<le> t / 125"
    using assms(2) by (simp_all add: field_simps)
  then have "fl (t / 125) \<le> fl 0" and "fl t \<le> fl (t / 125)"
    by (simp_all only: fl_mono)
  then have i: "fl (t / 125) \<le> 0" "t \<le> fl (t / 125)"
    using assms(1) by (simp_all add: is_double_fl)
  have "\<bar>t\<bar> < 2 ^ 1024"
    using assms(1) by (simp add: is_double_def)
  then have "fl (t / 125) < 2 ^ 1024" "- (2 ^ 1024) < fl (t / 125)"
    using i by linarith+
  then have "round_num (t / 125) = Fin (fl (t / 125))"
    "round_num (fl (t / 125)) = Fin (fl (t / 125))"
    by (simp_all add: round_num_Fin)
  then show ?thesis
    using i
    by (simp add: counter_run_def animateCounter_def interval_fires_def tick_def Let_def)
qed

lemma infinite_first_tick:
  "cleared (fst (counter_run L el PInf p 1))" "cleared (fst (counter_run L el NInf p 1))"
  by (simp_all add: counter_run_def animateCounter_def interval_fires_def tick_def Let_def)

text \<open>A positive target: every tick of the running timer moves the accumulator up by
  at least the smallest positive number, so the timer cannot run for ever.\<close>

lemma fl_self_form:
  assumes "0 < x" and "fl x = x"
  shows "\<exists>m. 0 \<le> m \<and> m < 2 ^ 53 \<and> x = of_int m * 2 powi ulp_exp x"
proof -
  obtain m where m: "0 \<le> m" "m \<le> 2 ^ 53" "fl x = of_int m * 2 powi ulp_exp x"
    using fl_form [OF assms(1)] by blast
  have "ilog2 x - 52 \<le> ulp_exp x"
    using assms(1) by (simp add: ulp_exp_pos)
  then have "ilog2 x + 1 \<le> 53 + ulp_exp x"
    by simp
  then have "(2::rat) powi (ilog2 x + 1) \<le> 2 powi (53 + ulp_exp x)"
    by (rule two_powi_le)
  then have "x < 2 powi (53 + ulp_exp x)"
    using ilog2_bounds [OF assms(1)] by simp
  then have lt: "x < 2 ^ 53 * 2 powi ulp_exp x"
    by (simp add: power_int_add)
  have mx: "of_int m * 2 powi ulp_exp x = x"
    using m(3) assms(2) by simp
  have "(of_int m :: rat) * 2 powi ulp_exp x < 2 ^ 53 * 2 powi ulp_exp x"
    using lt by (simp only: mx)
  then have "(of_int m :: rat) < 2 ^ 53"
    by (simp only: mult_less_cancel_right_pos two_powi_pos)
  then have "(of_int m :: rat) < of_int (2 ^ 53)"
    by simp
  then have "m < 2 ^ 53"
    by (simp only: of_int_less_iff)
  then show ?thesis
    using m(1) mx by auto
qed

lemma next_double:
  assumes "0 < x" and "fl x = x"
  shows "fl (x + 2 powi ulp_exp x) = x + 2 powi ulp_exp x"
proof -
  obtain m where m: "0 \<le> m" "m < 2 ^ 53" "x = of_int m * 2 powi ulp_exp x"
    using fl_self_form [OF assms] by blast
  have "fl (of_int (m + 1) * 2 powi ulp_exp x) = of_int (m + 1) * 2 powi ulp_exp x"
    using m(1,2) by (intro fl_exact) simp_all
  moreover have "(of_int (m + 1) :: rat) * 2 powi ulp_exp x
      = of_int m * 2 powi ulp_exp x + 2 powi ulp_exp x"
    by (simp add: algebra_simps)
  moreover have "of_int m * 2 powi ulp_exp x + 2 powi ulp_exp x = x + 2 powi ulp_exp x"
    by (simp only: m(3) [symmetric])
  ultimately show ?thesis
    by simp
qed

lemma min_value_pos [simp]: "0 < min_value"
  by (simp add: min_value_def)

lemma min_value_le_ulp: "min_value \<le> 2 powi ulp_exp x"
  unfolding min_value_def by (rule two_powi_le) simp

lemma fl_ge_min:
  assumes "0 < fl y"
  shows "min_value \<le> fl y"
proof -
  have y: "0 < y"
    using assms fl_nonpos [of y] by (cases "0 < y") simp_all
  obtain m where m: "0 \<le> m" "fl y = of_int m * 2 powi ulp_exp y"
    using fl_form [OF y] by blast
  have "m \<noteq> 0"
    using assms m(2) by auto
  then have "(1::rat) \<le> of_int m"
    using m(1) by simp
  then have "(1::rat) * 2 powi ulp_exp y \<le> of_int m * 2 powi ulp_exp y"
    by (simp only: mult_le_cancel_right_pos two_powi_pos)
  then have "2 powi ulp_exp y \<le> fl y"
    by (simp only: m(2) mult_1)
  with min_value_le_ulp show ?thesis
    by (rule order_trans)
qed

lemma progress:
  assumes "fl x = x" and "0 \<le> x" and "x < t" and "0 < fl (t / 125)"
  shows "x + min_value \<le> fl (x + fl (t / 125))"
proof (cases "x = 0")
  case True
  then show ?thesis
    using fl_ge_min [OF assms(4)] by simp
next
  case False
  then have x: "0 < x"
    using assms(2) by simp
  let ?q = "ulp_exp x"
  have "2 powi ?q \<le> fl (t / 125)"
  proof (cases "?q = - 1074")
    case True
    then have "2 powi ?q = min_value"
      by (simp only: min_value_def)
    then show ?thesis
      using fl_ge_min [OF assms(4)] by simp
  next
    case False
    then have q: "?q = ilog2 x - 52"
      using x by (simp add: ulp_exp_pos max_def split: if_splits)
    then have k: "- 1074 \<le> ilog2 x - 7"
      using ulp_exp_ge [of x] by linarith
    have "fl (of_int 1 * 2 powi (ilog2 x - 7)) = of_int 1 * 2 powi (ilog2 x - 7)"
      using k by (intro fl_exact) simp_all
    then have e: "fl (2 powi (ilog2 x - 7)) = 2 powi (ilog2 x - 7)"
      by simp
    have "(2::rat) powi (ilog2 x - 7) = 2 powi ilog2 x * 2 powi (- 7)"
      by (simp add: power_int_diff power_int_minus_divide)
    also have "\<dots> \<le> t * 2 powi (- 7)"
      using ilog2_bounds [OF x] assms(3) by (simp add: mult_right_mono)
    also have "\<dots> = t / 128"
      by (simp add: power_int_minus_divide)
    also have "\<dots> \<le> t / 125"
      using x assms(3) by (simp add: field_simps)
    finally have "fl (2 powi (ilog2 x - 7)) \<le> fl (t / 125)"
      by (rule fl_mono)
    moreover have "(2::rat) powi ?q \<le> 2 powi (ilog2 x - 7)"
      using q by (intro two_powi_le) simp
    ultimately show ?thesis
      using e by simp
  qed
  then have "fl (x + 2 powi ?q) \<le> fl (x + fl (t / 125))"
    by (intro fl_mono) simp
  then have "x + 2 powi ?q \<le> fl (x + fl (t / 125))"
    using next_double [OF x assms(1)] by simp
  then show ?thesis
    using min_value_le_ulp [of x] by simp
qed

lemma positive_run_lower_bound:
  assumes "is_double t" and "0 < t" and "0 < fl (t / 125)"
  shows "cleared (fst (counter_run L el (Fin t) p n)) \<or>
         (\<exists>x. c_current (fst (counter_run L el (Fin t) p n)) = Fin x \<and>
              of_nat n * min_value \<le> x \<and> x < t)"
proof (induction n)
  case 0
  show ?case
    using assms by (simp add: animateCounter_positive)
next
  case (Suc n)
  obtain c q where cq: "counter_run L el (Fin t) p n = (c, q)"
    by (cases "counter_run L el (Fin t) p n")
  note inv = positive_run_invariant [OF assms(1,2), of L el p n, unfolded cq fst_conv]
  show ?case
  proof (cases "cleared c")
    case True
    then show ?thesis
      by (simp add: counter_run_Suc cq interval_fires_cleared)
  next
    case False
    then obtain x where x: "c_current c = Fin x" "fl x = x" "0 \<le> x" "x < t"
      using inv by auto
    have lb: "of_nat n * min_value \<le> x"
      using Suc.IH False x(1) by (simp add: cq)
    have c: "c = \<lparr>c_element = el, c_target = Fin t, c_increment = Fin (fl (t / 125)),
                   c_current = Fin x, cleared = False\<rparr>"
      using inv False x(1) by (cases c) simp
    have i: "0 \<le> fl (t / 125)"
      using assms(3) by simp
    obtain c' p' where step: "interval_fires L (c, q) = (c', p')"
      "c_current c' = js_add (c_current c) (c_increment c)"
      "cleared c' \<or> (\<exists>x'. c_current c' = Fin x' \<and> fl x' = x' \<and> x \<le> x' \<and> x' < t)"
      using tick_positive [OF assms(1) i x(2,3,4) c, of L q] by blast
    show ?thesis
    proof (cases "cleared c'")
      case True
      then show ?thesis
        by (simp add: counter_run_Suc cq step(1))
    next
      case False
      then obtain x' where x': "c_current c' = Fin x'" "x' < t"
        using step(3) by auto
      have "js_add (Fin x) (Fin (fl (t / 125))) = Fin x'"
        using step(2) x' by (simp add: c)
      then have "x' = fl (x + fl (t / 125))"
        using js_add_cases [OF x(3) i] by auto
      then have "x + min_value \<le> x'"
        using progress [OF x(2,3,4) assms(3)] by simp
      then have "of_nat (Suc n) * min_value \<le> x'"
        using lb by (simp add: algebra_simps)
      then show ?thesis
        using x' by (simp add: counter_run_Suc cq step(1))
    qed
  qed
qed

lemma positive_run_ends:
  assumes "is_double t" and "0 < t" and "0 < fl (t / 125)"
  shows "\<exists>n. cleared (fst (counter_run L el (Fin t) p n))"
proof -
  define n where "n = nat \<lceil>t / min_value\<rceil>"
  have "t / min_value \<le> of_int \<lceil>t / min_value\<rceil>"
    by (rule le_of_int_ceiling)
  moreover have "0 \<le> \<lceil>t / min_value\<rceil>"
  proof -
    have "0 \<le> t / min_value"
      using assms(2) by (simp add: less_imp_le)
    then show ?thesis
      by (metis ceiling_mono ceiling_zero)
  qed
  ultimately have "t / min_value \<le> of_nat n"
    by (simp add: n_def)
  then have "t \<le> of_nat n * min_value"
    by (simp add: pos_divide_le_eq)
  then have "cleared (fst (counter_run L el (Fin t) p n))"
    using positive_run_lower_bound [OF assms, of L el p n] by auto
  then show ?thesis ..
qed

lemma counts_up_ends:
  assumes "counts_up T"
  shows "\<exists>n. cleared (fst (counter_run L el T p n))"
proof (cases T)
  case NaN
  then show ?thesis using assms by simp
next
  case NInf
  then show ?thesis using infinite_first_tick(2) by blast
next
  case (Fin t)
  show ?thesis
  proof (cases "t \<le> 0")
    case True
    then have "cleared (fst (counter_run L el (Fin t) p 1))"
      using assms Fin by (intro nonpositive_first_tick) simp_all
    then show ?thesis
      using Fin by blast
  next
    case False
    then show ?thesis
      using assms Fin positive_run_ends [of t L el p] by simp
  qed
next
  case PInf
  then show ?thesis using infinite_first_tick(1) by blast
qed

text \<open>What \<open>parseInt\<close> returns is \<open>NaN\<close>, an infinity or an integer, and never a
  positive number too small to count up to.\<close>

lemma fl_1 [simp]: "fl 1 = 1"
  using fl_of_int [of 1] by simp

lemma round_num_of_int_counts_up: "counts_up (round_num (of_int n))"
proof (cases "round_num (of_int n)")
  case NaN
  then show ?thesis
    by (simp add: round_num_def Let_def split: if_splits)
next
  case NInf
  then show ?thesis by simp
next
  case PInf
  then show ?thesis by simp
next
  case (Fin t)
  then have t: "t = fl (of_int n)" "\<bar>t\<bar> < 2 ^ 1024"
    by (auto simp: round_num_def Let_def split: if_splits)
  then have d: "is_double t"
    by (simp add: is_double_def)
  have "0 < fl (t / 125)" if "0 < t"
  proof -
    have "0 < n"
      using that t(1) fl_nonpos [of "of_int n"] by (cases "0 < n") simp_all
    then have "(1::rat) \<le> of_int n"
      by simp
    then have "fl 1 \<le> fl (of_int n)"
      by (rule fl_mono)
    then have "1 \<le> t"
      using t(1) by simp
    moreover have "(2::rat) powi (- 1022) \<le> 1"
      using two_powi_le [of "- 1022" 0] by (simp only: power_int_0_right)
    ultimately have "2 powi (- 1022) \<le> t"
      by (rule order_trans [rotated])
    then show ?thesis
      by (rule increment_positive)
  qed
  then show ?thesis
    using Fin d by (cases "t \<le> 0") simp_all
qed

lemma parseInt_counts_up: "parseInt s = NaN \<or> counts_up (parseInt s)"
  by (simp add: parseInt_def Let_def round_num_of_int_counts_up split: prod.splits
      del: of_int_mult)

section \<open>The stats section becomes visible\<close>

lemma start_stat_others:
  "stat \<noteq> i \<Longrightarrow> i < length (elements (doc w)) \<Longrightarrow>
   elem (doc (start_stat stat w)) i = elem (doc w) i"
  by (simp add: start_stat_def Let_def elem_modify)

lemma fold_start_stat_intervals:
  assumes "distinct ns" and "\<forall>i\<in>set ns. i < length (elements (doc w))"
  shows "intervals (fold start_stat ns w) =
     intervals w @
     map (\<lambda>stat. animateCounter stat (parseInt (remove_commas (textContent (elem (doc w) stat)))))
       ns"
  using assms
proof (induction ns arbitrary: w)
  case Nil
  show ?case by simp
next
  case (Cons n ns)
  let ?w1 = "start_stat n w"
  have len: "length (elements (doc ?w1)) = length (elements (doc w))"
    by (simp add: start_stat_def Let_def)
  have same: "elem (doc ?w1) i = elem (doc w) i" if "i \<in> set ns" for i
    using that Cons.prems by (intro start_stat_others) auto
  have "intervals (fold start_stat ns ?w1) =
     intervals ?w1 @
     map (\<lambda>stat. animateCounter stat (parseInt (remove_commas (textContent (elem (doc ?w1) stat)))))
       ns"
    using Cons.prems by (intro Cons.IH) (simp_all add: len)
  also have "map (\<lambda>stat. animateCounter stat
        (parseInt (remove_commas (textContent (elem (doc ?w1) stat))))) ns =
      map (\<lambda>stat. animateCounter stat
        (parseInt (remove_commas (textContent (elem (doc w) stat))))) ns"
    using same by simp
  finally show ?case
    by (simp add: start_stat_def Let_def)
qed

lemma stats_visible_starts:
  assumes "s \<in> statsObserved w"
    and "stat \<in> set (querySelectorAll (doc w) (sel_stat_number_in s))"
    and "w' = stats_intersection [\<lparr>target = s, isIntersecting = True\<rparr>] w"
  shows "textContent (elem (doc w') stat) = ''0'' \<and>
         animateCounter stat (parseInt (remove_commas (textContent (elem (doc w) stat))))
           \<in> set (intervals w')"
proof -
  let ?ns = "querySelectorAll (doc w) (sel_stat_number_in s)"
  have w': "w' = (fold start_stat ?ns w)\<lparr>statsObserved := statsObserved w - {s}\<rparr>"
    using assms(1,3)
    by (simp add: stats_intersection_def delivered_def stats_callback_def stats_entry_def Let_def)
  have range: "\<forall>i\<in>set ?ns. i < length (elements (doc w))"
    by (simp add: set_querySelectorAll)
  have "elem (doc w') stat = set_text ''0'' (elem (doc w) stat)"
    using assms(2) range by (simp add: w' doc_fold_start_stat fold_modify_elem)
  moreover have "animateCounter stat (parseInt (remove_commas (textContent (elem (doc w) stat))))
      \<in> set (intervals w')"
    using assms(2) by (simp add: w' fold_start_stat_intervals [OF _ range])
  ultimately show ?thesis
    by (simp add: set_text_def)
qed

section \<open>C1: the counter and its target\<close>

lemma zero_increment_run:
  assumes "is_double t" and "0 < t" and "fl (t / 125) = 0"
  shows "\<not> cleared (fst (counter_run L el (Fin t) p n)) \<and>
         c_current (fst (counter_run L el (Fin t) p n)) = Fin 0"
proof (induction n)
  case 0
  show ?case
    using assms by (simp add: animateCounter_positive)
next
  case (Suc n)
  obtain c q where cq: "counter_run L el (Fin t) p n = (c, q)"
    by (cases "counter_run L el (Fin t) p n")
  have "c_target c = Fin t" "c_increment c = Fin 0"
    using positive_run_invariant [OF assms(1,2), of L el p n] assms(3) by (simp_all add: cq)
  then show ?case
    using Suc.IH assms(2)
    by (simp add: counter_run_Suc cq interval_fires_def tick_def Let_def)
qed

text \<open>
  C1, as stated, fails: not every target is reached. On \<open>page_stats\<close> the second
  number reads \<open>N/A\<close>, \<open>parseInt\<close> gives \<open>NaN\<close>, and the counter that is started for
  it is never cleared: it writes \<open>NaN\<close> on every tick. Nor is the smallest positive
  number reached: its increment is zero.
\<close>

theorem counter_never_ends:
  "parseInt (remove_commas (textContent (elem page_stats 2))) = NaN \<and>
   \<not> (\<exists>n. cleared (fst (counter_run plain 2 NaN page_stats n))) \<and>
   textContent (elem (snd (counter_run plain 2 NaN page_stats 125)) 2) = ''NaN'' \<and>
   \<not> (\<exists>n. cleared (fst (counter_run plain 2 (Fin min_value) page_stats n)))"
proof -
  have "textContent (elem page_stats 2) = ''N/A''"
    by (simp add: page_stats_def elem_def mk_element_def)
  then have a: "parseInt (remove_commas (textContent (elem page_stats 2))) = NaN"
    by (simp add: parseInt_def remove_commas_def is_white_def is_digit_def digit_of_def)
  have b: "2 < length (elements page_stats)"
    by (simp add: page_stats_def)
  have z: "fl (min_value / 125) = 0"
    by (rule tiny_increment) (simp_all add: min_value_def)
  have c: "\<not> (\<exists>n. cleared (fst (counter_run plain 2 (Fin min_value) page_stats n)))"
    using zero_increment_run [of min_value plain 2 page_stats] min_value_double z by simp
  show ?thesis
    using a b c NaN_run [of plain 2 page_stats] by (simp add: plain_def)
qed

text \<open>
  C1, amended: \<open>animateCounter\<close> starts its accumulator at 0, and for every target
  that \<open>counts_up\<close> (every number but \<open>NaN\<close> and the positive numbers so small that
  \<open>target / 125\<close> rounds to zero) the timer is cleared after finitely many ticks, and
  from then on the element's text is \<open>target.toLocaleString()\<close>. When the observed
  stats section \<open>s\<close> is reported visible, the text of each \<open>.stat-number\<close> element
  below it is set to \<open>0\<close> and a counter is started for it whose target is \<open>parseInt\<close>
  of its former text without the commas; that target counts up unless it is \<open>NaN\<close>.
\<close>

theorem counter_reaches_target:
  assumes "counts_up T" and "el < length (elements p)"
    and "s \<in> statsObserved w"
    and "stat \<in> set (querySelectorAll (doc w) (sel_stat_number_in s))"
    and "w' = stats_intersection [\<lparr>target = s, isIntersecting = True\<rparr>] w"
  shows "c_current (animateCounter el T) = Fin 0 \<and>
         (\<exists>n. \<forall>m\<ge>n. cleared (fst (counter_run L el T p m)) \<and>
                     textContent (elem (snd (counter_run L el T p m)) el) = L T) \<and>
         textContent (elem (doc w') stat) = ''0'' \<and>
         animateCounter stat (parseInt (remove_commas (textContent (elem (doc w) stat))))
           \<in> set (intervals w') \<and>
         (parseInt (remove_commas (textContent (elem (doc w) stat))) = NaN \<or>
          counts_up (parseInt (remove_commas (textContent (elem (doc w) stat)))))"
proof -
  obtain n where n: "cleared (fst (counter_run L el T p n))"
    using counts_up_ends [OF assms(1)] by blast
  have "cleared (fst (counter_run L el T p m)) \<and>
        textContent (elem (snd (counter_run L el T p m)) el) = L T" if "n \<le> m" for m
  proof -
    have "counter_run L el T p m = counter_run L el T p n"
      using cleared_stays [OF n, of "m - n"] that by simp
    then show ?thesis
      using n cleared_text [OF assms(2) n] by simp
  qed
  then have "\<exists>n. \<forall>m\<ge>n. cleared (fst (counter_run L el T p m)) \<and>
                     textContent (elem (snd (counter_run L el T p m)) el) = L T"
    by blast
  then show ?thesis
    using stats_visible_starts [OF assms(3,4,5)] parseInt_counts_up
    by (simp add: animateCounter_def Let_def)
qed

theorem counter_reaches_target_witness:
  "counts_up (Fin 250) \<and> 0 \<in> statsObserved world_stats \<and>
   1 \<in> set (querySelectorAll (doc world_stats) (sel_stat_number_in 0)) \<and>
   (\<exists>n. cleared (fst (counter_run plain 1 (Fin 250) page_stats n)) \<and>
        textContent (elem (snd (counter_run plain 1 (Fin 250) page_stats n)) 1)
          = plain (Fin 250)) \<and>
   textContent (elem (doc (stats_intersection [\<lparr>target = 0, isIntersecting = True\<rparr>]
     world_stats)) 1) = ''0'' \<and>
   animateCounter 1 (Fin 1250)
     \<in> set (intervals (stats_intersection [\<lparr>target = 0, isIntersecting = True\<rparr>]
         world_stats))"
proof -
  have "(250 :: rat) / 125 = 2"
    by simp
  then have a: "counts_up (Fin 250)"
    by (simp add: is_double_def)
  have b: "1 < length (elements page_stats)" and c: "0 \<in> statsObserved world_stats"
    and d: "1 \<in> set (querySelectorAll (doc world_stats) (sel_stat_number_in 0))"
    and e: "textContent (elem (doc world_stats) 1) = ''1,250''"
    by code_simp+
  have f: "parseInt (remove_commas ''1,250'') = Fin 1250"
    by (simp add: parseInt_def remove_commas_def is_white_def is_digit_def digit_of_def
        digits_value_def)
  show ?thesis
    using counter_reaches_target [OF a b c d refl, of plain] a c d e f by auto
qed

section \<open>Stats section: how often one callback starts the animation\<close>

lemma stats_callback_intersecting:
  "stats_callback es w = stats_callback (filter isIntersecting es) w"
  unfolding stats_callback_def
  by (induction es arbitrary: w) (simp_all add: stats_entry_def)

lemma stats_entry_intervals:
  assumes "isIntersecting e"
  shows "intervals (stats_entry e w) =
     intervals w @
     map (\<lambda>stat. animateCounter stat (parseInt (remove_commas (textContent (elem (doc w) stat)))))
       (querySelectorAll (doc w) (sel_stat_number_in (target e)))"
proof -
  have "\<forall>i\<in>set (querySelectorAll (doc w) (sel_stat_number_in (target e))).
      i < length (elements (doc w))"
    by (simp add: set_querySelectorAll)
  then show ?thesis
    using assms by (simp add: stats_entry_def Let_def fold_start_stat_intervals)
qed

text \<open>
  A callback with exactly one intersecting entry among those delivered starts exactly
  one counter for each \<open>.stat-number\<close> element below the section, with the parsed text
  as its target.
\<close>

lemma stats_single_entry_starts_once:
  assumes "filter isIntersecting (delivered (statsObserved w1) es) = [e]"
    and "w2 = step L (StatsEntries es) w1"
  shows "intervals w2 =
     intervals w1 @
     map (\<lambda>stat. animateCounter stat
            (parseInt (remove_commas (textContent (elem (doc w1) stat)))))
       (querySelectorAll (doc w1) (sel_stat_number_in (target e)))"
proof -
  have e: "isIntersecting e"
    using assms(1) by (metis filter_eq_ConsD)
  have "w2 = stats_callback [e] w1"
    using assms stats_callback_intersecting [of "delivered (statsObserved w1) es" w1]
    by (simp add: stats_intersection_def)
  then show ?thesis
    using stats_entry_intervals [OF e, of w1] by (simp add: stats_callback_def)
qed

text \<open>
  C3 does not hold of every callback. The section is unobserved only after its first
  intersecting entry has been handled, and the entries of one call are all handled:
  when the browser has queued two intersecting entries for the section before it runs
  the callback, \<open>animateCounter\<close> is called twice for each \<open>.stat-number\<close> element.
  On \<open>page_stats\<close>, with the one section observed and two numbers below it, the
  callback called with \<open>stats_visible_twice\<close> starts four timers: the two towards the
  parsed texts, and two more on the same elements towards 0, the text by then.
\<close>

theorem stats_animation_started_twice:
  "statsObserved world_stats = {0} \<and>
   querySelectorAll (doc world_stats) (sel_stat_number_in 0) = [1, 2] \<and>
   intervals world_stats = [] \<and>
   map c_element (intervals (step plain (StatsEntries stats_visible_twice) world_stats))
     = [1, 2, 1, 2] \<and>
   map c_target (intervals (step plain (StatsEntries stats_visible_twice) world_stats))
     = [Fin 1250, NaN, Fin 0, Fin 0]"
proof -
  let ?e = "\<lparr>target = 0, isIntersecting = True\<rparr>"
  let ?w1 = "stats_entry ?e world_stats"
  have obs: "statsObserved world_stats = {0}"
    and q0: "querySelectorAll (doc world_stats) (sel_stat_number_in 0) = [1, 2]"
    and i0: "intervals world_stats = []"
    and t0: "textContent (elem (doc world_stats) (Suc 0)) = ''1,250''"
            "textContent (elem (doc world_stats) 2) = ''N/A''"
    by code_simp+
  define d where "d = fold (\<lambda>i. modify i (set_text ''0'')) [1, 2] (doc world_stats)"
  have d1: "doc ?w1 = d"
    using doc_fold_start_stat [of "[1, 2]" world_stats]
    by (simp add: stats_entry_def Let_def q0 d_def del: fold_simps)
  have q1: "querySelectorAll d (sel_stat_number_in 0) = [1, 2]"
    and t1: "textContent (elem d (Suc 0)) = ''0''" "textContent (elem d 2) = ''0''"
    unfolding d_def by code_simp+
  have p: "parseInt (remove_commas ''1,250'') = Fin 1250"
    "parseInt (remove_commas ''N/A'') = NaN" "parseInt (remove_commas ''0'') = Fin 0"
    by (simp_all add: parseInt_def remove_commas_def is_white_def is_digit_def digit_of_def
        digits_value_def)
  have a1: "intervals ?w1 = [animateCounter 1 (Fin 1250), animateCounter 2 NaN]"
    using stats_entry_intervals [of ?e world_stats] by (simp add: q0 i0 t0 p)
  have a2: "intervals (stats_entry ?e ?w1) =
      [animateCounter 1 (Fin 1250), animateCounter 2 NaN,
       animateCounter 1 (Fin 0), animateCounter 2 (Fin 0)]"
    using stats_entry_intervals [of ?e ?w1] by (simp add: a1 d1 q1 t1 p)
  have "step plain (StatsEntries stats_visible_twice) world_stats = stats_entry ?e ?w1"
    by (simp add: stats_intersection_def delivered_def obs stats_visible_twice_def
        stats_callback_def stats_entry_def [of "\<lparr>target = 0, isIntersecting = False\<rparr>"])
  then show ?thesis
    using obs q0 i0 a2 by (simp add: animateCounter_def Let_def)
qed

end
